theory Spec2Isabelle
  imports Main "HOL-Library.AList"
begin

section \<open>PromiseCache: a cache of pending asynchronous values\<close>

text \<open>
  A shallow embedding of \<^verbatim>\<open>src/src/PromiseCache.js\<close> (the LRU-capable version of the
  cache). Every method of the class is a function on an explicit state record that holds
  the fields of the instance together with the part of the host environment the methods
  touch: the object allocator (identity of \<^verbatim>\<open>new CacheEntry\<close>), the number of setter
  invocations, the rejection continuations registered with \<^verbatim>\<open>promise.then\<close>, and the
  intervals scheduled with \<^verbatim>\<open>setInterval\<close>. A method that reads the clock takes the
  clock reading \<open>now\<close> (milliseconds) as a parameter; one reading serves a whole call.
  A thrown exception is a value of type \<open>error\<close>; the state returned next to it holds
  the mutations made before the throw.

  The cache object is an association list with unique keys, in insertion order: an
  assignment to a key that is present keeps its place, a new key goes to the end. That is
  the order in which \<^verbatim>\<open>for..in\<close> visits string keys; keys that are array indices (which
  \<^verbatim>\<open>for..in\<close> visits first) are not modelled. The object is a plain \<^verbatim>\<open>{}\<close>, so a
  property read finds, for a key that is not one of its own, the members it inherits from
  \<^verbatim>\<open>Object.prototype\<close> (\<open>lookup\<close> below). Times and ages are integers (milliseconds).

  \<^verbatim>\<open>src/unnamed/part_000\<close> is the earlier version of the class, without \<^verbatim>\<open>maxSize\<close>,
  pruning and the guarded removal; of it the model uses the comparison of its
  \<^verbatim>\<open>isExpired\<close>.
\<close>

subsection \<open>Values, errors, cache entries\<close>

datatype error = InvalidSetterError | InvalidSetterResultError | TypeError

text \<open>
  What a setter returns: an object with a \<^verbatim>\<open>then\<close> function (a promise, known by its
  identity), or anything else.
\<close>

datatype jsval = PromiseObj nat | NonThenable

text \<open>The \<^verbatim>\<open>setter\<close> argument of \<^verbatim>\<open>get\<close>: not a function, or a function returning a value.\<close>

datatype setter = NotCallable | Setter jsval

text \<open>
  Modelled from the spec: the class \<^verbatim>\<open>PromiseCache.CacheEntry\<close> that
  \<^verbatim>\<open>src/src/PromiseCache.js\<close> injects is not under \<^verbatim>\<open>src/\<close>. Section 3 and 4.1 of the
  spec give it a key, a value and an insertion time; \<open>ident\<close> is the identity of the
  object (what \<^verbatim>\<open>===\<close> compares).
\<close>

record CacheEntry =
  ident :: nat
  entryKey :: string
  entryPromise :: nat
  insertedAt :: int

text \<open>
  Modelled from the spec: the constructor (section 4.1: \<^verbatim>\<open>Construct(key, value)\<close> records
  \<^verbatim>\<open>insertedAt\<close> = now). The identity of the new object is given by the caller, which
  draws it from the allocator.
\<close>

definition newCacheEntry :: "nat \<Rightarrow> string \<Rightarrow> nat \<Rightarrow> int \<Rightarrow> CacheEntry" where
  "newCacheEntry i k p now =
     \<lparr> ident = i, entryKey = k, entryPromise = p, insertedAt = now \<rparr>"

text \<open>
  Modelled from the spec: \<^verbatim>\<open>CacheEntry.isExpired(maxAge)\<close> is not under \<^verbatim>\<open>src/\<close>; by
  section 4.1 it is true iff \<^verbatim>\<open>maxAge\<close> is non-null and
  \<^verbatim>\<open>now() > insertedAt + maxAge\<close>. The comparison is the one of
  \<^verbatim>\<open>PromiseCache.isExpired\<close> in \<^verbatim>\<open>src/unnamed/part_000\<close>:
  \<^verbatim>\<open>now > cacheEntry.getEntryTime() + this.maxAge\<close>.
\<close>

definition isExpired :: "CacheEntry \<Rightarrow> int option \<Rightarrow> int \<Rightarrow> bool" where
  "isExpired e maxAge_arg now =
     (case maxAge_arg of None \<Rightarrow> False | Some a \<Rightarrow> now > insertedAt e + a)"

subsection \<open>Reading a key of the cache object\<close>

text \<open>
  The names of the members of \<^verbatim>\<open>Object.prototype\<close> in a standard host (ECMAScript and
  its annex B). Each is a function, or for \<^verbatim>\<open>__proto__\<close> the prototype object itself: a
  truthy value that has no \<^verbatim>\<open>isExpired\<close> and no \<^verbatim>\<open>getKey\<close> method.
\<close>

definition objectPrototype :: "string list" where
  "objectPrototype =
     [''constructor'', ''hasOwnProperty'', ''isPrototypeOf'', ''propertyIsEnumerable'',
      ''toLocaleString'', ''toString'', ''valueOf'', ''__proto__'',
      ''__defineGetter__'', ''__defineSetter__'', ''__lookupGetter__'', ''__lookupSetter__'']"

text \<open>
  What \<^verbatim>\<open>cache[ key ]\<close> evaluates to: \<^verbatim>\<open>undefined\<close>, an entry stored under the key, or
  a member inherited from \<^verbatim>\<open>Object.prototype\<close>. An own property shadows an inherited one.
\<close>

datatype member = Absent | Own CacheEntry | Inherited

definition lookup :: "(string \<times> CacheEntry) list \<Rightarrow> string \<Rightarrow> member" where
  "lookup m k =
     (case map_of m k of
        Some e \<Rightarrow> Own e
      | None \<Rightarrow> if k \<in> set objectPrototype then Inherited else Absent)"

subsection \<open>The LRU list\<close>

text \<open>
  Modelled from the spec: the class \<^verbatim>\<open>PromiseCache.LruList\<close> is not under \<^verbatim>\<open>src/\<close>.
  Section 4.2 describes a doubly linked sequence of entries with a most-recently-used and
  a least-recently-used end; the model is the sequence itself, most recently used first,
  and entries are found in it by identity. \<^verbatim>\<open>touch\<close> is specified for a linked entry
  only; the model leaves the list as it is for any other.
\<close>

definition linked :: "CacheEntry \<Rightarrow> CacheEntry list \<Rightarrow> bool" where
  "linked e l = (ident e \<in> set (map ident l))"

definition unlink :: "CacheEntry \<Rightarrow> CacheEntry list \<Rightarrow> CacheEntry list" where
  "unlink e l = filter (\<lambda>x. ident x \<noteq> ident e) l"

definition pushMru :: "CacheEntry \<Rightarrow> CacheEntry list \<Rightarrow> CacheEntry list" where
  "pushMru e l = e # l"

definition touch :: "CacheEntry \<Rightarrow> CacheEntry list \<Rightarrow> CacheEntry list" where
  "touch e l = (if linked e l then e # unlink e l else l)"

definition getLru :: "CacheEntry list \<Rightarrow> CacheEntry option" where
  "getLru l = (if l = [] then None else Some (last l))"

subsection \<open>The cache and its environment\<close>

text \<open>
  The configuration (\<^verbatim>\<open>maxSize\<close>, \<^verbatim>\<open>maxAge\<close>, \<^verbatim>\<open>pruneInterval\<close>; \<open>None\<close> is \<^verbatim>\<open>null\<close>),
  the private fields (\<^verbatim>\<open>cache\<close>, \<^verbatim>\<open>size\<close> under the name \<open>size_pc\<close>,
  \<^verbatim>\<open>pruningIntervalId\<close>, \<^verbatim>\<open>lruList\<close>), and the environment: the identity the next
  \<^verbatim>\<open>new CacheEntry\<close> gets, the number of setter invocations so far, the rejection
  continuations registered so far (promise, key and entry bound by \<^verbatim>\<open>angular.bind\<close>), the
  ids of the intervals that are scheduled, and the id the next \<^verbatim>\<open>setInterval\<close> returns.
\<close>

record PromiseCache =
  maxSize :: "int option"
  maxAge :: "int option"
  pruneInterval :: "int option"
  cache :: "(string \<times> CacheEntry) list option"
  size_pc :: int
  pruningIntervalId :: "nat option"
  lruList :: "CacheEntry list option"
  nextIdent :: nat
  setterCalls :: nat
  rejectHandlers :: "(nat \<times> string \<times> CacheEntry) list"
  intervals :: "nat list"
  nextIntervalId :: nat

text \<open>
  \<^verbatim>\<open>new PromiseCache(cfg)\<close>: the prototype's values for the private fields, and the
  three options as the constructor's arguments (the prototype's defaults are \<open>None\<close>,
  \<open>None\<close> and \<open>Some 60000\<close>), in a host with no interval scheduled. Interval ids start
  at 1, as in a browser, so that an id is truthy.
\<close>

definition newPromiseCache :: "int option \<Rightarrow> int option \<Rightarrow> int option \<Rightarrow> PromiseCache" where
  "newPromiseCache msize mage pinterval =
     \<lparr> maxSize = msize, maxAge = mage, pruneInterval = pinterval,
       cache = None, size_pc = 0, pruningIntervalId = None, lruList = None,
       nextIdent = 0, setterCalls = 0, rejectHandlers = [],
       intervals = [], nextIntervalId = 1 \<rparr>"

subsection \<open>The pruning interval\<close>

definition startPruningInterval :: "PromiseCache \<Rightarrow> PromiseCache" where
  "startPruningInterval s =
     (if pruningIntervalId s \<noteq> None then s
      else if pruneInterval s = None then s
      else if maxAge s = None then s
      else s\<lparr> pruningIntervalId := Some (nextIntervalId s),
              intervals := nextIntervalId s # intervals s,
              nextIntervalId := Suc (nextIntervalId s) \<rparr>)"

definition stopPruningInterval :: "PromiseCache \<Rightarrow> PromiseCache" where
  "stopPruningInterval s =
     (case pruningIntervalId s of
        None \<Rightarrow> s
      | Some i \<Rightarrow> s\<lparr> intervals := removeAll i (intervals s), pruningIntervalId := None \<rparr>)"

subsection \<open>clear, destroy, removal\<close>

definition clear :: "PromiseCache \<Rightarrow> PromiseCache" where
  "clear s = stopPruningInterval (s\<lparr> cache := None, lruList := None, size_pc := 0 \<rparr>)"

definition destroy :: "PromiseCache \<Rightarrow> PromiseCache" where
  "destroy s = (stopPruningInterval s)\<lparr> cache := None \<rparr>"

text \<open>
  \<^verbatim>\<open>removeEntry\<close>: the last entry clears the cache; otherwise the counter goes down, the
  entry leaves the LRU list, and its key is deleted from \<^verbatim>\<open>this.cache\<close>, which throws a
  \<^verbatim>\<open>TypeError\<close> when \<^verbatim>\<open>this.cache\<close> is \<^verbatim>\<open>null\<close>.
\<close>

definition removeEntry :: "CacheEntry \<Rightarrow> PromiseCache \<Rightarrow> (error + unit) \<times> PromiseCache" where
  "removeEntry e s =
     (if size_pc s = 1 then (Inr (), clear s)
      else
        (let s1 = s\<lparr> size_pc := size_pc s - 1 \<rparr>;
             s2 = (case lruList s1 of
                     None \<Rightarrow> s1
                   | Some l \<Rightarrow> s1\<lparr> lruList := Some (unlink e l) \<rparr>)
         in (case cache s2 of
               None \<Rightarrow> (Inl TypeError, s2)
             | Some m \<Rightarrow> (Inr (), s2\<lparr> cache := Some (AList.delete (entryKey e) m) \<rparr>))))"

text \<open>
  \<^verbatim>\<open>removeEntry\<close> when its argument is a member inherited from \<^verbatim>\<open>Object.prototype\<close>
  instead of an entry: the same first steps, and then \<^verbatim>\<open>cacheEntry.getKey()\<close> throws a
  \<^verbatim>\<open>TypeError\<close>, after the counter went down. Modelled from the spec:
  \<^verbatim>\<open>lruList.remove\<close> of a value that is not linked is a no-op that does not throw
  (section 4.2).
\<close>

definition removeEntryInherited :: "PromiseCache \<Rightarrow> (error + unit) \<times> PromiseCache" where
  "removeEntryInherited s =
     (if size_pc s = 1 then (Inr (), clear s)
      else (Inl TypeError, s\<lparr> size_pc := size_pc s - 1 \<rparr>))"

text \<open>
  \<^verbatim>\<open>remove\<close> passes to \<^verbatim>\<open>removeEntry\<close> whatever truthy value the key reads.
\<close>

definition remove :: "string \<Rightarrow> PromiseCache \<Rightarrow> (error + unit) \<times> PromiseCache" where
  "remove k s =
     (case cache s of
        None \<Rightarrow> (Inr (), s)
      | Some m \<Rightarrow>
          (case lookup m k of
             Absent \<Rightarrow> (Inr (), s)
           | Own e \<Rightarrow> removeEntry e s
           | Inherited \<Rightarrow> removeEntryInherited s))"

text \<open>
  \<^verbatim>\<open>removeIfEntry\<close>: the key is removed when it reads the very entry given (\<^verbatim>\<open>===\<close>).
\<close>

definition removeIfEntry :: "string \<Rightarrow> CacheEntry \<Rightarrow> PromiseCache \<Rightarrow> (error + unit) \<times> PromiseCache" where
  "removeIfEntry k e s =
     (case cache s of
        None \<Rightarrow> (Inr (), s)
      | Some m \<Rightarrow>
          (case lookup m k of
             Absent \<Rightarrow> (Inr (), s)
           | Own e' \<Rightarrow> if ident e' = ident e then remove k s else (Inr (), s)
           | Inherited \<Rightarrow> (Inr (), s)))"

subsection \<open>get and addEntry\<close>

text \<open>
  \<^verbatim>\<open>addEntry\<close> calls the setter, and for a promise stores a fresh entry under the key,
  pushes it on the LRU list, counts it, starts the pruning interval, evicts the key of
  the least recently used node when the counter exceeds \<^verbatim>\<open>maxSize\<close> (\<open>evictLru\<close>, the
  conditional at the end of the branch), and registers the rejection continuation
  \<^verbatim>\<open>removeIfEntry(key, cacheEntry)\<close> on the promise. An exception thrown by the eviction
  leaves \<^verbatim>\<open>addEntry\<close> before the continuation is registered. The \<^verbatim>\<open>TypeError\<close> branches
  of \<open>addEntry\<close> and \<open>evictLru\<close> themselves are what JavaScript does on a call of a
  non-function and on a property access on \<^verbatim>\<open>null\<close> or \<^verbatim>\<open>undefined\<close>; \<^verbatim>\<open>get\<close>, the only
  caller, rules them out before it calls \<^verbatim>\<open>addEntry\<close>, and calls it only for a key that
  reads \<^verbatim>\<open>undefined\<close> or an entry of its own.
\<close>

definition evictLru :: "PromiseCache \<Rightarrow> (error + unit) \<times> PromiseCache" where
  "evictLru s =
     (case maxSize s of
        None \<Rightarrow> (Inr (), s)
      | Some n \<Rightarrow>
          (if size_pc s > n then
             (case lruList s of
                None \<Rightarrow> (Inl TypeError, s)
              | Some l \<Rightarrow>
                  (case getLru l of
                     None \<Rightarrow> (Inl TypeError, s)
                   | Some v \<Rightarrow> remove (entryKey v) s))
           else (Inr (), s)))"

definition addEntry :: "string \<Rightarrow> setter \<Rightarrow> int \<Rightarrow> PromiseCache \<Rightarrow> (error + nat) \<times> PromiseCache" where
  "addEntry k st now s =
     (case st of
        NotCallable \<Rightarrow> (Inl TypeError, s)
      | Setter NonThenable \<Rightarrow>
          (Inl InvalidSetterResultError, s\<lparr> setterCalls := Suc (setterCalls s) \<rparr>)
      | Setter (PromiseObj p) \<Rightarrow>
          (let s0 = s\<lparr> setterCalls := Suc (setterCalls s) \<rparr>;
               e = newCacheEntry (nextIdent s) k p now
           in (case cache s0 of
                 None \<Rightarrow> (Inl TypeError, s0)
               | Some m \<Rightarrow>
                   (let s1 = s0\<lparr> cache := Some (AList.update k e m),
                                 nextIdent := Suc (nextIdent s0) \<rparr>;
                        s2 = (case lruList s1 of
                                None \<Rightarrow> s1
                              | Some l \<Rightarrow> s1\<lparr> lruList := Some (pushMru e l) \<rparr>);
                        s3 = s2\<lparr> size_pc := size_pc s2 + 1 \<rparr>;
                        s4 = startPruningInterval s3
                    in (case evictLru s4 of
                          (Inl err, s5) \<Rightarrow> (Inl err, s5)
                        | (Inr u, s5) \<Rightarrow>
                            (Inr p, s5\<lparr> rejectHandlers := rejectHandlers s5 @ [(p, k, e)] \<rparr>))))))"

definition touchEntry :: "CacheEntry \<Rightarrow> PromiseCache \<Rightarrow> PromiseCache" where
  "touchEntry e s =
     (case lruList s of
        None \<Rightarrow> s
      | Some l \<Rightarrow> s\<lparr> lruList := Some (touch e l) \<rparr>)"

text \<open>
  \<^verbatim>\<open>get\<close>: the setter must be a function; the map and (with a \<^verbatim>\<open>maxSize\<close>) the LRU list
  are created on first use; an entry that is present and not expired is a hit, which
  touches the entry in the LRU list; \<^verbatim>\<open>undefined\<close> and an expired entry go through
  \<^verbatim>\<open>addEntry\<close>. For an inherited member the test \<^verbatim>\<open>cacheEntry && !cacheEntry.isExpired(...)\<close>
  calls \<^verbatim>\<open>undefined\<close> and throws a \<^verbatim>\<open>TypeError\<close>, before any setter is called.
\<close>

definition lazyInit :: "PromiseCache \<Rightarrow> PromiseCache" where
  "lazyInit s =
     (let s1 = (if cache s = None then s\<lparr> cache := Some [] \<rparr> else s)
      in if lruList s1 = None \<and> maxSize s1 \<noteq> None then s1\<lparr> lruList := Some [] \<rparr> else s1)"

definition get :: "string \<Rightarrow> setter \<Rightarrow> int \<Rightarrow> PromiseCache \<Rightarrow> (error + nat) \<times> PromiseCache" where
  "get k st now s =
     (case st of
        NotCallable \<Rightarrow> (Inl InvalidSetterError, s)
      | Setter v \<Rightarrow>
          (let s2 = lazyInit s
           in case cache s2 of
                None \<Rightarrow> (Inl TypeError, s2)
              | Some m \<Rightarrow>
                  (case lookup m k of
                     Absent \<Rightarrow> addEntry k st now s2
                   | Own e \<Rightarrow>
                       (if \<not> isExpired e (maxAge s2) now
                        then (Inr (entryPromise e), touchEntry e s2)
                        else addEntry k st now s2)
                   | Inherited \<Rightarrow> (Inl TypeError, s2))))"

subsection \<open>has, prune, getSize\<close>

text \<open>
  \<^verbatim>\<open>has\<close> changes no state; on an inherited member its call of \<^verbatim>\<open>isExpired\<close> throws.
\<close>

definition has :: "string \<Rightarrow> int \<Rightarrow> PromiseCache \<Rightarrow> error + bool" where
  "has k now s =
     (case cache s of
        None \<Rightarrow> Inr False
      | Some m \<Rightarrow>
          (case lookup m k of
             Absent \<Rightarrow> Inr False
           | Own e \<Rightarrow> Inr (\<not> isExpired e (maxAge s) now)
           | Inherited \<Rightarrow> Inl TypeError))"

text \<open>
  The loop of \<^verbatim>\<open>prune\<close> runs over the own keys (\<^verbatim>\<open>hasOwnProperty\<close>) of the object that
  \<^verbatim>\<open>this.cache\<close> held when \<^verbatim>\<open>prune\<close> started, and reads each entry from that object;
  \<^verbatim>\<open>removeEntry\<close> deletes the key of the entry being visited, so the loop sees the
  entries of the snapshot.
\<close>

fun pruneLoop :: "(string \<times> CacheEntry) list \<Rightarrow> int \<Rightarrow> int \<Rightarrow> PromiseCache \<Rightarrow> (error + unit) \<times> PromiseCache" where
  "pruneLoop [] a now s = (Inr (), s)"
| "pruneLoop ((k, e) # rest) a now s =
     (if isExpired e (Some a) now then
        (case removeEntry e s of
           (Inl err, s') \<Rightarrow> (Inl err, s')
         | (Inr u, s') \<Rightarrow> pruneLoop rest a now s')
      else pruneLoop rest a now s)"

definition prune :: "int \<Rightarrow> PromiseCache \<Rightarrow> (error + unit) \<times> PromiseCache" where
  "prune now s =
     (case cache s of
        None \<Rightarrow> (Inr (), s)
      | Some m \<Rightarrow>
          (case maxAge s of
             None \<Rightarrow> (Inr (), s)
           | Some a \<Rightarrow> pruneLoop m a now s))"

definition getSize :: "int \<Rightarrow> PromiseCache \<Rightarrow> (error + int) \<times> PromiseCache" where
  "getSize now s =
     (case prune now s of
        (Inl err, s') \<Rightarrow> (Inl err, s')
      | (Inr u, s') \<Rightarrow> (Inr (size_pc s'), s'))"

subsection \<open>Rejection of a promise\<close>

text \<open>
  When a promise is rejected, the continuations registered on it run in the order of
  their registration, each once.
\<close>

fun runHandlers :: "(nat \<times> string \<times> CacheEntry) list \<Rightarrow> PromiseCache \<Rightarrow> PromiseCache" where
  "runHandlers [] s = s"
| "runHandlers ((p, k, e) # hs) s = runHandlers hs (snd (removeIfEntry k e s))"

definition reject :: "nat \<Rightarrow> PromiseCache \<Rightarrow> PromiseCache" where
  "reject p s =
     runHandlers (filter (\<lambda>h. fst h = p) (rejectHandlers s))
       (s\<lparr> rejectHandlers := filter (\<lambda>h. fst h \<noteq> p) (rejectHandlers s) \<rparr>)"

subsection \<open>Observations of a state\<close>

definition cacheEntries :: "PromiseCache \<Rightarrow> (string \<times> CacheEntry) list" where
  "cacheEntries s = (case cache s of None \<Rightarrow> [] | Some m \<Rightarrow> m)"

definition lruContents :: "PromiseCache \<Rightarrow> CacheEntry list" where
  "lruContents s = (case lruList s of None \<Rightarrow> [] | Some l \<Rightarrow> l)"

text \<open>
  The test of \<^verbatim>\<open>get\<close> sends the key \<open>k\<close> to \<^verbatim>\<open>addEntry\<close> (a miss): the key reads
  \<^verbatim>\<open>undefined\<close> or an expired entry.
\<close>

definition misses :: "string \<Rightarrow> int \<Rightarrow> PromiseCache \<Rightarrow> bool" where
  "misses k now s =
     (case lookup (cacheEntries s) k of
        Absent \<Rightarrow> True
      | Own e \<Rightarrow> isExpired e (maxAge s) now
      | Inherited \<Rightarrow> False)"

subsection \<open>Sequences of calls\<close>

text \<open>
  The public operations, and the rejection of a promise, as events; each comes with the
  clock reading at which it happens. \<open>exec\<close> keeps the state an event leaves behind
  (also when the call throws).
\<close>

datatype call =
    Get string setter
  | Has string
  | Remove string
  | GetSize
  | Clear
  | Prune
  | Destroy
  | Reject nat

fun exec :: "call \<Rightarrow> int \<Rightarrow> PromiseCache \<Rightarrow> PromiseCache" where
  "exec (Get k st) now s = snd (get k st now s)"
| "exec (Has k) now s = s"
| "exec (Remove k) now s = snd (remove k s)"
| "exec GetSize now s = snd (getSize now s)"
| "exec Clear now s = clear s"
| "exec Prune now s = snd (prune now s)"
| "exec Destroy now s = destroy s"
| "exec (Reject p) now s = reject p s"

fun run :: "(call \<times> int) list \<Rightarrow> PromiseCache \<Rightarrow> PromiseCache" where
  "run [] s = s"
| "run ((c, now) # cs) s = run cs (exec c now s)"


text \<open>A \<^verbatim>\<open>remove\<close> whose key is the name of a member of \<^verbatim>\<open>Object.prototype\<close>.\<close>

definition inheritedRemoval :: "call \<Rightarrow> bool" where
  "inheritedRemoval c = (case c of Remove k \<Rightarrow> k \<in> set objectPrototype | _ \<Rightarrow> False)"

fun plainRemovals :: "(call \<times> int) list \<Rightarrow> bool" where
  "plainRemovals [] = True"
| "plainRemovals ((c, now) # cs) = (\<not> inheritedRemoval c \<and> plainRemovals cs)"


text \<open>Successive \<^verbatim>\<open>get\<close> calls, each with a key, the promise its setter returns, and a time.\<close>

fun getAll :: "(string \<times> nat \<times> int) list \<Rightarrow> PromiseCache \<Rightarrow> PromiseCache" where
  "getAll [] s = s"
| "getAll ((k, p, now) # xs) s = getAll xs (snd (get k (Setter (PromiseObj p)) now s))"

subsection \<open>Consistency of the bookkeeping\<close>

text \<open>
  Keys of the map are unique (it is an object), and every entry sits under its own key.
\<close>

definition entriesKeyed :: "PromiseCache \<Rightarrow> bool" where
  "entriesKeyed s =
     (distinct (map fst (cacheEntries s)) \<and>
      list_all (\<lambda>(k, e). entryKey e = k) (cacheEntries s))"

text \<open>
  No key of the map, no entry stored in the map and no node of the LRU list bears the
  name of a member of \<^verbatim>\<open>Object.prototype\<close>. (\<^verbatim>\<open>get\<close> throws on such a key before it
  stores anything.)
\<close>

definition plainKeys :: "PromiseCache \<Rightarrow> bool" where
  "plainKeys s =
     (list_all (\<lambda>x. fst x \<notin> set objectPrototype \<and> entryKey (snd x) \<notin> set objectPrototype)
        (cacheEntries s) \<and>
      list_all (\<lambda>e. entryKey e \<notin> set objectPrototype) (lruContents s))"

text \<open>The counter equals the number of keys of the map (none when the map is absent).\<close>

definition sizeMirrors :: "PromiseCache \<Rightarrow> bool" where
  "sizeMirrors s = (size_pc s = int (length (cacheEntries s)))"

text \<open>The counter is at least the number of keys of the map.\<close>

definition sizeCovers :: "PromiseCache \<Rightarrow> bool" where
  "sizeCovers s = (int (length (cacheEntries s)) \<le> size_pc s)"

text \<open>An LRU list, when there is one, links exactly the entries of the map, each once.\<close>

definition lruMirrors :: "PromiseCache \<Rightarrow> bool" where
  "lruMirrors s =
     (case lruList s of
        None \<Rightarrow> True
      | Some l \<Rightarrow> distinct (map ident l) \<and> set l = snd ` set (cacheEntries s))"



text \<open>
  An insertion under key \<open>k\<close> keeps the entry it inserts: a \<^verbatim>\<open>maxSize\<close>, if configured,
  is at least 1, and when the insertion overflows it, the least recently used node is a
  node of another key.
\<close>

definition keepsInserted :: "string \<Rightarrow> PromiseCache \<Rightarrow> bool" where
  "keepsInserted k s =
     (case maxSize s of
        None \<Rightarrow> True
      | Some n \<Rightarrow>
          1 \<le> n \<and>
          (size_pc s + 1 \<le> n \<or>
           (lruContents s \<noteq> [] \<and> entryKey (last (lruContents s)) \<noteq> k)))"

text \<open>
  A rejection continuation \<open>(p, k, e)\<close> is stale when the key \<open>k\<close> now holds an entry
  other than \<open>e\<close>: the key has been overwritten since the continuation was registered.
\<close>

definition staleHandler :: "(nat \<times> string \<times> CacheEntry) \<Rightarrow> PromiseCache \<Rightarrow> bool" where
  "staleHandler h s =
     (case h of
        (p, k, e) \<Rightarrow>
          (case map_of (cacheEntries s) k of
             None \<Rightarrow> False
           | Some e' \<Rightarrow> ident e' \<noteq> ident e))"

subsection \<open>The steps of addEntry\<close>

text \<open>
  The state of \<^verbatim>\<open>addEntry\<close> between the start of the pruning interval and the eviction
  check, for a setter that returns the promise \<open>p\<close>. It only names a part of \<open>addEntry\<close>.
\<close>

definition inserted :: "string \<Rightarrow> nat \<Rightarrow> int \<Rightarrow> PromiseCache \<Rightarrow> PromiseCache" where
  "inserted k p now s =
     startPruningInterval
       (s\<lparr> setterCalls := Suc (setterCalls s),
           cache := Some (AList.update k (newCacheEntry (nextIdent s) k p now) (cacheEntries s)),
           nextIdent := Suc (nextIdent s),
           lruList := map_option (pushMru (newCacheEntry (nextIdent s) k p now)) (lruList s),
           size_pc := size_pc s + 1 \<rparr>)"

section \<open>Properties\<close>

subsection \<open>Fields after each step\<close>

lemma stopPruningInterval_fields:
  "cache (stopPruningInterval s) = cache s"
  "size_pc (stopPruningInterval s) = size_pc s"
  "lruList (stopPruningInterval s) = lruList s"
  "maxSize (stopPruningInterval s) = maxSize s"
  "maxAge (stopPruningInterval s) = maxAge s"
  "pruneInterval (stopPruningInterval s) = pruneInterval s"
  "pruningIntervalId (stopPruningInterval s) = None"
  "nextIdent (stopPruningInterval s) = nextIdent s"
  "setterCalls (stopPruningInterval s) = setterCalls s"
  "rejectHandlers (stopPruningInterval s) = rejectHandlers s"
  by (simp_all add: stopPruningInterval_def split: option.splits)

subsection \<open>get, remove and addEntry in closed form\<close>

lemma startPruningInterval_fields:
  "cache (startPruningInterval s) = cache s"
  "size_pc (startPruningInterval s) = size_pc s"
  "lruList (startPruningInterval s) = lruList s"
  "maxSize (startPruningInterval s) = maxSize s"
  "maxAge (startPruningInterval s) = maxAge s"
  "pruneInterval (startPruningInterval s) = pruneInterval s"
  "nextIdent (startPruningInterval s) = nextIdent s"
  "setterCalls (startPruningInterval s) = setterCalls s"
  "rejectHandlers (startPruningInterval s) = rejectHandlers s"
  by (simp_all add: startPruningInterval_def)

lemma lazyInit_fields:
  "cache (lazyInit s) = Some (cacheEntries s)"
  "size_pc (lazyInit s) = size_pc s"
  "lruList (lazyInit s) = (if maxSize s = None then lruList s else Some (lruContents s))"
  "maxSize (lazyInit s) = maxSize s"
  "maxAge (lazyInit s) = maxAge s"
  "pruneInterval (lazyInit s) = pruneInterval s"
  "pruningIntervalId (lazyInit s) = pruningIntervalId s"
  "nextIdent (lazyInit s) = nextIdent s"
  "setterCalls (lazyInit s) = setterCalls s"
  "rejectHandlers (lazyInit s) = rejectHandlers s"
  "intervals (lazyInit s) = intervals s"
  "nextIntervalId (lazyInit s) = nextIntervalId s"
  by (auto simp add: lazyInit_def cacheEntries_def lruContents_def Let_def split: option.splits)

lemma lazyInit_obs:
  "cacheEntries (lazyInit s) = cacheEntries s"
  "lruContents (lazyInit s) = lruContents s"
  by (auto simp add: lazyInit_def cacheEntries_def lruContents_def Let_def split: option.splits)

lemma cacheEntries_update:
  "cacheEntries (s\<lparr> cache := c \<rparr>) = (case c of None \<Rightarrow> [] | Some m \<Rightarrow> m)"
  "cacheEntries (s\<lparr> size_pc := n \<rparr>) = cacheEntries s"
  "cacheEntries (s\<lparr> lruList := l \<rparr>) = cacheEntries s"
  "cacheEntries (s\<lparr> rejectHandlers := hs \<rparr>) = cacheEntries s"
  "cacheEntries (s\<lparr> setterCalls := c' \<rparr>) = cacheEntries s"
  "cacheEntries (s\<lparr> pruningIntervalId := i \<rparr>) = cacheEntries s"
  "cacheEntries (s\<lparr> intervals := is \<rparr>) = cacheEntries s"
  by (simp_all add: cacheEntries_def)

lemma lruContents_update:
  "lruContents (s\<lparr> lruList := l \<rparr>) = (case l of None \<Rightarrow> [] | Some x \<Rightarrow> x)"
  "lruContents (s\<lparr> size_pc := n \<rparr>) = lruContents s"
  "lruContents (s\<lparr> cache := c \<rparr>) = lruContents s"
  "lruContents (s\<lparr> rejectHandlers := hs \<rparr>) = lruContents s"
  "lruContents (s\<lparr> setterCalls := c' \<rparr>) = lruContents s"
  "lruContents (s\<lparr> pruningIntervalId := i \<rparr>) = lruContents s"
  "lruContents (s\<lparr> intervals := is \<rparr>) = lruContents s"
  by (simp_all add: lruContents_def)

lemma lookup_own: "map_of m k = Some e \<Longrightarrow> lookup m k = Own e"
  by (simp add: lookup_def)

lemma lookup_plain:
  "k \<notin> set objectPrototype \<Longrightarrow>
     lookup m k = (case map_of m k of None \<Rightarrow> Absent | Some e \<Rightarrow> Own e)"
  by (simp add: lookup_def split: option.splits)

lemma lookup_not_inherited:
  "lookup m k \<noteq> Inherited \<Longrightarrow>
     lookup m k = (case map_of m k of None \<Rightarrow> Absent | Some e \<Rightarrow> Own e)"
  by (simp add: lookup_def split: option.splits if_splits)

lemma lookup_inherited:
  "(lookup m k = Inherited) = (map_of m k = None \<and> k \<in> set objectPrototype)"
  by (simp add: lookup_def split: option.splits)

lemma misses_not_inherited: "misses k now s \<Longrightarrow> lookup (cacheEntries s) k \<noteq> Inherited"
  by (auto simp add: misses_def)

lemma misses_iff:
  "misses k now s =
     (case map_of (cacheEntries s) k of
        None \<Rightarrow> k \<notin> set objectPrototype
      | Some e \<Rightarrow> isExpired e (maxAge s) now)"
  by (simp add: misses_def lookup_def split: option.splits)


lemma get_hit:
  assumes "map_of (cacheEntries s) k = Some e" and "\<not> isExpired e (maxAge s) now"
  shows "get k (Setter v) now s = (Inr (entryPromise e), touchEntry e (lazyInit s))"
  using assms by (simp add: get_def Let_def lazyInit_fields lookup_own)

lemma get_miss:
  assumes "misses k now s"
  shows "get k (Setter v) now s = addEntry k (Setter v) now (lazyInit s)"
  using assms
  by (cases "lookup (cacheEntries s) k") (simp_all add: get_def Let_def lazyInit_fields misses_def)

lemma get_inherited:
  assumes "lookup (cacheEntries s) k = Inherited"
  shows "get k (Setter v) now s = (Inl TypeError, lazyInit s)"
  using assms by (simp add: get_def Let_def lazyInit_fields)

text \<open>remove and removeEntry in closed form\<close>

lemma removeEntry_eq:
  assumes "cache s = Some m"
  shows "removeEntry e s =
     (Inr (), if size_pc s = 1 then clear s
              else s\<lparr> size_pc := size_pc s - 1,
                      lruList := map_option (unlink e) (lruList s),
                      cache := Some (AList.delete (entryKey e) m) \<rparr>)"
  using assms by (simp add: removeEntry_def Let_def split: option.splits)

lemma remove_eq:
  assumes "lookup (cacheEntries s) k \<noteq> Inherited"
  shows "remove k s =
     (Inr (), case map_of (cacheEntries s) k of
                None \<Rightarrow> s
              | Some e \<Rightarrow>
                  if size_pc s = 1 then clear s
                  else s\<lparr> size_pc := size_pc s - 1,
                          lruList := map_option (unlink e) (lruList s),
                          cache := Some (AList.delete (entryKey e) (cacheEntries s)) \<rparr>)"
proof (cases "cache s")
  case None
  then show ?thesis by (simp add: remove_def cacheEntries_def)
next
  case (Some m)
  then show ?thesis
    using assms
    by (cases "map_of m k") (simp_all add: remove_def removeEntry_eq cacheEntries_def lookup_def split: if_splits)
qed

lemma remove_inherited:
  assumes "cache s = Some m" and "lookup m k = Inherited"
  shows "remove k s = removeEntryInherited s"
  using assms by (simp add: remove_def)

lemma remove_cases:
  "remove k s = (Inr (), s) \<or> remove k s = removeEntryInherited s \<or>
   (\<exists>e. map_of (cacheEntries s) k = Some e \<and> remove k s = removeEntry e s)"
proof (cases "cache s")
  case None
  then show ?thesis by (simp add: remove_def)
next
  case (Some m)
  then show ?thesis
    by (cases "map_of m k") (simp_all add: remove_def cacheEntries_def lookup_def)
qed

lemma evictLru_eq:
  assumes "maxSize s \<noteq> None \<Longrightarrow> lruList s = Some l \<and> l \<noteq> []"
  shows "evictLru s =
     (case maxSize s of
        None \<Rightarrow> (Inr (), s)
      | Some n \<Rightarrow> if size_pc s > n then remove (entryKey (last l)) s else (Inr (), s))"
  using assms by (auto simp add: evictLru_def getLru_def split: option.splits)

lemma inserted_eq:
  assumes "cache s = Some m"
  shows "inserted k p now s =
     startPruningInterval
       ((case lruList s of
           None \<Rightarrow> s\<lparr> setterCalls := Suc (setterCalls s),
                      cache := Some (AList.update k (newCacheEntry (nextIdent s) k p now) m),
                      nextIdent := Suc (nextIdent s) \<rparr>
         | Some l \<Rightarrow> s\<lparr> setterCalls := Suc (setterCalls s),
                      cache := Some (AList.update k (newCacheEntry (nextIdent s) k p now) m),
                      nextIdent := Suc (nextIdent s),
                      lruList := Some (pushMru (newCacheEntry (nextIdent s) k p now) l) \<rparr>)
          \<lparr> size_pc := size_pc s + 1 \<rparr>)"
  using assms
  by (cases s) (simp add: inserted_def cacheEntries_def split: option.splits)

lemma addEntry_promise:
  assumes "cache s = Some m"
  shows "addEntry k (Setter (PromiseObj p)) now s =
     (case evictLru (inserted k p now s) of
        (Inl err, s5) \<Rightarrow> (Inl err, s5)
      | (Inr u, s5) \<Rightarrow>
          (Inr p, s5\<lparr> rejectHandlers := rejectHandlers s5 @ [(p, k, newCacheEntry (nextIdent s) k p now)] \<rparr>))"
  unfolding inserted_eq[OF assms]
  using assms
  by (cases "lruList s") (simp_all add: addEntry_def Let_def)

lemma clear_fields:
  "cache (clear s) = None"
  "size_pc (clear s) = 0"
  "lruList (clear s) = None"
  "maxSize (clear s) = maxSize s"
  "maxAge (clear s) = maxAge s"
  "pruneInterval (clear s) = pruneInterval s"
  "pruningIntervalId (clear s) = None"
  "nextIdent (clear s) = nextIdent s"
  "setterCalls (clear s) = setterCalls s"
  "rejectHandlers (clear s) = rejectHandlers s"
  by (simp_all add: clear_def stopPruningInterval_fields)

lemma removeEntry_fields:
  "maxSize (snd (removeEntry e s)) = maxSize s"
  "maxAge (snd (removeEntry e s)) = maxAge s"
  "pruneInterval (snd (removeEntry e s)) = pruneInterval s"
  "nextIdent (snd (removeEntry e s)) = nextIdent s"
  "setterCalls (snd (removeEntry e s)) = setterCalls s"
  "rejectHandlers (snd (removeEntry e s)) = rejectHandlers s"
  by (simp_all add: removeEntry_def Let_def clear_fields split: option.splits)

lemma removeEntryInherited_fields:
  "maxSize (snd (removeEntryInherited s)) = maxSize s"
  "maxAge (snd (removeEntryInherited s)) = maxAge s"
  "pruneInterval (snd (removeEntryInherited s)) = pruneInterval s"
  "nextIdent (snd (removeEntryInherited s)) = nextIdent s"
  "setterCalls (snd (removeEntryInherited s)) = setterCalls s"
  "rejectHandlers (snd (removeEntryInherited s)) = rejectHandlers s"
  by (simp_all add: removeEntryInherited_def clear_fields)

lemma remove_fields:
  "maxSize (snd (remove k s)) = maxSize s"
  "maxAge (snd (remove k s)) = maxAge s"
  "pruneInterval (snd (remove k s)) = pruneInterval s"
  "nextIdent (snd (remove k s)) = nextIdent s"
  "setterCalls (snd (remove k s)) = setterCalls s"
  "rejectHandlers (snd (remove k s)) = rejectHandlers s"
  using remove_cases[of k s]
  by (auto simp add: removeEntry_fields removeEntryInherited_fields)

lemma remove_ok:
  assumes "lookup (cacheEntries s) k \<noteq> Inherited"
  shows "fst (remove k s) = Inr ()"
  by (simp add: remove_eq[OF assms])

lemma touchEntry_fields:
  "cache (touchEntry e s) = cache s"
  "size_pc (touchEntry e s) = size_pc s"
  "maxSize (touchEntry e s) = maxSize s"
  "maxAge (touchEntry e s) = maxAge s"
  "pruneInterval (touchEntry e s) = pruneInterval s"
  "pruningIntervalId (touchEntry e s) = pruningIntervalId s"
  "nextIdent (touchEntry e s) = nextIdent s"
  "setterCalls (touchEntry e s) = setterCalls s"
  "rejectHandlers (touchEntry e s) = rejectHandlers s"
  "intervals (touchEntry e s) = intervals s"
  "lruList (touchEntry e s) = map_option (touch e) (lruList s)"
  by (simp_all add: touchEntry_def split: option.splits)

lemma inserted_fields:
  "cache (inserted k p now s) = Some (AList.update k (newCacheEntry (nextIdent s) k p now) (cacheEntries s))"
  "size_pc (inserted k p now s) = size_pc s + 1"
  "lruList (inserted k p now s) = map_option (pushMru (newCacheEntry (nextIdent s) k p now)) (lruList s)"
  "maxSize (inserted k p now s) = maxSize s"
  "maxAge (inserted k p now s) = maxAge s"
  "pruneInterval (inserted k p now s) = pruneInterval s"
  "nextIdent (inserted k p now s) = Suc (nextIdent s)"
  "setterCalls (inserted k p now s) = Suc (setterCalls s)"
  "rejectHandlers (inserted k p now s) = rejectHandlers s"
  by (simp_all add: inserted_def startPruningInterval_fields)

lemma inserted_obs:
  "cacheEntries (inserted k p now s) = AList.update k (newCacheEntry (nextIdent s) k p now) (cacheEntries s)"
  by (simp add: cacheEntries_def[of "inserted k p now s"] inserted_fields)

text \<open>After the lazy initialisation the eviction check cannot throw.\<close>

lemma evictLru_inserted:
  "evictLru (inserted k p now (lazyInit s)) =
     (case maxSize s of
        None \<Rightarrow> (Inr (), inserted k p now (lazyInit s))
      | Some n \<Rightarrow>
          if size_pc s + 1 > n
          then remove (entryKey (last (newCacheEntry (nextIdent s) k p now # lruContents s)))
                 (inserted k p now (lazyInit s))
          else (Inr (), inserted k p now (lazyInit s)))"
proof -
  have "maxSize (inserted k p now (lazyInit s)) \<noteq> None \<Longrightarrow>
        lruList (inserted k p now (lazyInit s)) = Some (newCacheEntry (nextIdent s) k p now # lruContents s)
        \<and> newCacheEntry (nextIdent s) k p now # lruContents s \<noteq> []"
    by (auto simp add: inserted_fields lazyInit_fields pushMru_def)
  from evictLru_eq[OF this] show ?thesis
    by (simp add: inserted_fields lazyInit_fields split: option.splits)
qed

text \<open>The key of the least recently used node after an insertion reads an entry or nothing.\<close>

lemma lru_key_after_insert:
  assumes "plainKeys s"
  shows "lookup (cacheEntries (inserted k p now (lazyInit s)))
           (entryKey (last (newCacheEntry (nextIdent s) k p now # lruContents s))) \<noteq> Inherited"
proof (cases "lruContents s = []")
  case True
  then show ?thesis
    by (simp add: lookup_inherited inserted_obs lazyInit_fields lazyInit_obs update_conv'
        newCacheEntry_def)
next
  case False
  then have "last (lruContents s) \<in> set (lruContents s)" by (rule last_in_set)
  then have "entryKey (last (lruContents s)) \<notin> set objectPrototype"
    using assms by (simp add: plainKeys_def list_all_iff)
  then show ?thesis using False by (simp add: lookup_inherited)
qed

lemma evictLru_inserted_ok:
  assumes "plainKeys s"
  shows "fst (evictLru (inserted k p now (lazyInit s))) = Inr ()"
  using lru_key_after_insert[OF assms, of k p now]
  by (simp add: evictLru_inserted remove_ok split: option.splits)

lemma get_miss_promise:
  assumes "misses k now s" and "plainKeys s"
  shows "get k (Setter (PromiseObj p)) now s =
     (Inr p, (snd (evictLru (inserted k p now (lazyInit s))))
        \<lparr> rejectHandlers := rejectHandlers s @ [(p, k, newCacheEntry (nextIdent s) k p now)] \<rparr>)"
proof -
  have ok: "fst (evictLru (inserted k p now (lazyInit s))) = Inr ()"
    using assms(2) by (rule evictLru_inserted_ok)
  have rh: "rejectHandlers (snd (evictLru (inserted k p now (lazyInit s)))) = rejectHandlers s"
    by (simp add: evictLru_inserted remove_fields inserted_fields lazyInit_fields split: option.splits)
  obtain s5 where s5: "evictLru (inserted k p now (lazyInit s)) = (Inr (), s5)"
    using ok by (cases "evictLru (inserted k p now (lazyInit s))") auto
  have "get k (Setter (PromiseObj p)) now s = addEntry k (Setter (PromiseObj p)) now (lazyInit s)"
    using assms(1) by (rule get_miss)
  also have "\<dots> = (Inr p, s5\<lparr> rejectHandlers := rejectHandlers s5 @ [(p, k, newCacheEntry (nextIdent s) k p now)] \<rparr>)"
    using addEntry_promise[of "lazyInit s" "cacheEntries s" k p now]
    by (simp add: lazyInit_fields s5)
  finally show ?thesis using s5 rh by simp
qed

text \<open>A miss whose setter returns a promise: what is certain whatever the eviction does.\<close>

lemma get_miss_any:
  assumes "misses k now s"
  shows "get k (Setter (PromiseObj p)) now s =
     (case evictLru (inserted k p now (lazyInit s)) of
        (Inl err, s5) \<Rightarrow> (Inl err, s5)
      | (Inr u, s5) \<Rightarrow>
          (Inr p, s5\<lparr> rejectHandlers := rejectHandlers s5 @ [(p, k, newCacheEntry (nextIdent s) k p now)] \<rparr>))"
proof -
  have "addEntry k (Setter (PromiseObj p)) now (lazyInit s) =
     (case evictLru (inserted k p now (lazyInit s)) of
        (Inl err, s5) \<Rightarrow> (Inl err, s5)
      | (Inr u, s5) \<Rightarrow>
          (Inr p, s5\<lparr> rejectHandlers := rejectHandlers s5 @
             [(p, k, newCacheEntry (nextIdent (lazyInit s)) k p now)] \<rparr>))"
    by (rule addEntry_promise) (simp add: lazyInit_fields)
  then show ?thesis
    unfolding get_miss[OF assms] lazyInit_fields .
qed

lemma get_miss_setterCalls:
  assumes "misses k now s"
  shows "setterCalls (snd (get k (Setter (PromiseObj p)) now s)) = Suc (setterCalls s)"
proof -
  have "setterCalls (snd (evictLru (inserted k p now (lazyInit s)))) = Suc (setterCalls s)"
    by (simp add: evictLru_inserted remove_fields inserted_fields lazyInit_fields split: option.splits)
  then show ?thesis
    by (cases "evictLru (inserted k p now (lazyInit s))")
      (auto simp add: get_miss_any[OF assms] split: sum.splits)
qed

subsection \<open>Single flight\<close>

lemma keyed_lookup:
  assumes "entriesKeyed s" and "map_of (cacheEntries s) k = Some e"
  shows "entryKey e = k"
proof -
  have "(k, e) \<in> set (cacheEntries s)" using assms(2) by (rule map_of_SomeD)
  moreover have "list_all (\<lambda>(k, e). entryKey e = k) (cacheEntries s)"
    using assms(1) by (simp add: entriesKeyed_def)
  ultimately show ?thesis by (auto simp add: list_all_iff)
qed

lemma remove_lookup_other:
  assumes "entriesKeyed s" and "k' \<noteq> k" and "size_pc s \<noteq> 1"
    and ni: "lookup (cacheEntries s) k' \<noteq> Inherited"
  shows "map_of (cacheEntries (snd (remove k' s))) k = map_of (cacheEntries s) k"
proof (cases "map_of (cacheEntries s) k'")
  case None
  then show ?thesis by (simp add: remove_eq[OF ni])
next
  case (Some e')
  have "entryKey e' = k'" using assms(1) Some by (rule keyed_lookup)
  then show ?thesis
    using Some assms(2,3) by (simp add: remove_eq[OF ni] cacheEntries_def delete_conv)
qed

lemma list_all_update:
  "list_all P al \<Longrightarrow> P (k, v) \<Longrightarrow> list_all P (AList.update k v al)"
  by (induct al) auto

lemma list_all_delete:
  "list_all P al \<Longrightarrow> list_all P (AList.delete k al)"
  by (induct al) auto

lemma entriesKeyed_inserted:
  assumes "entriesKeyed s"
  shows "entriesKeyed (inserted k p now (lazyInit s))"
  using assms
  by (simp add: entriesKeyed_def inserted_obs lazyInit_fields lazyInit_obs distinct_update
      list_all_update newCacheEntry_def)

lemma stored_after_miss:
  assumes keyed: "entriesKeyed s" and plain: "plainKeys s"
    and miss: "misses k t1 s" and keep: "keepsInserted k s"
  shows "map_of (cacheEntries (snd (get k (Setter (PromiseObj p)) t1 s))) k
           = Some (newCacheEntry (nextIdent s) k p t1)"
proof -
  let ?e = "newCacheEntry (nextIdent s) k p t1"
  let ?I = "inserted k p t1 (lazyInit s)"
  have I: "map_of (cacheEntries ?I) k = Some ?e"
    by (simp add: inserted_obs lazyInit_fields lazyInit_obs update_conv')
  have "map_of (cacheEntries (snd (evictLru ?I))) k = Some ?e"
  proof (cases "maxSize s")
    case None
    then show ?thesis using I by (simp add: evictLru_inserted)
  next
    case (Some n)
    show ?thesis
    proof (cases "size_pc s + 1 > n")
      case False
      then show ?thesis using I Some by (simp add: evictLru_inserted)
    next
      case True
      with keep Some have n1: "1 \<le> n" and ne: "lruContents s \<noteq> []"
        and other: "entryKey (last (lruContents s)) \<noteq> k"
        by (auto simp add: keepsInserted_def)
      have sz: "size_pc ?I \<noteq> 1" using True n1 by (simp add: inserted_fields lazyInit_fields)
      have "lookup (cacheEntries ?I) (entryKey (last (lruContents s))) \<noteq> Inherited"
        using lru_key_after_insert[OF plain, of k p t1] ne by simp
      with entriesKeyed_inserted[OF keyed] other sz
      have "map_of (cacheEntries (snd (remove (entryKey (last (lruContents s))) ?I))) k
              = map_of (cacheEntries ?I) k"
        by (rule remove_lookup_other)
      then show ?thesis using I Some True ne by (simp add: evictLru_inserted)
    qed
  qed
  then show ?thesis
    by (simp add: get_miss_promise[OF miss plain] cacheEntries_def)
qed

lemma setterCalls_evictLru:
  "setterCalls (snd (evictLru (inserted k p now (lazyInit s)))) = Suc (setterCalls s)"
  "maxAge (snd (evictLru (inserted k p now (lazyInit s)))) = maxAge s"
  by (simp_all add: evictLru_inserted remove_fields inserted_fields lazyInit_fields split: option.splits)

lemma get_miss_fields:
  assumes "misses k now s" and "plainKeys s"
  shows "fst (get k (Setter (PromiseObj p)) now s) = Inr p"
    and "setterCalls (snd (get k (Setter (PromiseObj p)) now s)) = Suc (setterCalls s)"
    and "maxAge (snd (get k (Setter (PromiseObj p)) now s)) = maxAge s"
  by (simp_all add: get_miss_promise[OF assms] setterCalls_evictLru)

lemma get_hit_fields:
  assumes "map_of (cacheEntries s) k = Some e" and "\<not> isExpired e (maxAge s) now"
  shows "fst (get k (Setter v) now s) = Inr (entryPromise e)"
    and "setterCalls (snd (get k (Setter v) now s)) = setterCalls s"
  by (simp_all add: get_hit[OF assms] touchEntry_fields lazyInit_fields)




subsection \<open>Expiration\<close>

text \<open>
  Claim C4, as amended. With \<^verbatim>\<open>maxAge = a\<close> and an entry \<open>e\<close> stored under \<open>k\<close>, a
  \<^verbatim>\<open>get\<close> for \<open>k\<close> at any time \<open>now \<le> insertedAt e + a\<close> is a hit: it returns the stored
  promise and does not invoke the setter. A \<^verbatim>\<open>get\<close> at any time
  \<open>now > insertedAt e + a\<close> is a miss: it invokes the setter, and returns the new
  promise (in a cache none of whose keys and LRU nodes bears the name of a member of
  \<^verbatim>\<open>Object.prototype\<close>, which holds in every state the methods can reach; elsewhere the
  eviction that may follow the insertion can throw).
  \<open>isExpired\<close> is true iff the maximal age is non-null and \<open>now > insertedAt + maxAge\<close>.
  (The boundary \<open>now = insertedAt e + a\<close> is a hit.)
\<close>

theorem C4_expiration_boundary:
  "map_of (cacheEntries s) k = Some e \<and> maxAge s = Some a \<longrightarrow>
     (now \<le> insertedAt e + a \<longrightarrow>
        fst (get k (Setter v) now s) = Inr (entryPromise e) \<and>
        setterCalls (snd (get k (Setter v) now s)) = setterCalls s) \<and>
     (insertedAt e + a < now \<longrightarrow>
        setterCalls (snd (get k (Setter (PromiseObj p)) now s)) = Suc (setterCalls s) \<and>
        (plainKeys s \<longrightarrow> fst (get k (Setter (PromiseObj p)) now s) = Inr p)) \<and>
     isExpired e (Some a) now = (insertedAt e + a < now) \<and>
     \<not> isExpired e None now"
proof (intro impI, elim conjE)
  assume st: "map_of (cacheEntries s) k = Some e" and ma: "maxAge s = Some a"
  have hit: "fst (get k (Setter v) now s) = Inr (entryPromise e) \<and>
             setterCalls (snd (get k (Setter v) now s)) = setterCalls s"
    if "now \<le> insertedAt e + a"
  proof -
    have "\<not> isExpired e (maxAge s) now" using that ma by (simp add: isExpired_def)
    with st show ?thesis by (simp add: get_hit_fields)
  qed
  have miss: "setterCalls (snd (get k (Setter (PromiseObj p)) now s)) = Suc (setterCalls s) \<and>
              (plainKeys s \<longrightarrow> fst (get k (Setter (PromiseObj p)) now s) = Inr p)"
    if "insertedAt e + a < now"
  proof -
    have "misses k now s" using that ma st by (simp add: misses_iff isExpired_def)
    then show ?thesis by (simp add: get_miss_fields get_miss_setterCalls)
  qed
  show "(now \<le> insertedAt e + a \<longrightarrow>
        fst (get k (Setter v) now s) = Inr (entryPromise e) \<and>
        setterCalls (snd (get k (Setter v) now s)) = setterCalls s) \<and>
     (insertedAt e + a < now \<longrightarrow>
        setterCalls (snd (get k (Setter (PromiseObj p)) now s)) = Suc (setterCalls s) \<and>
        (plainKeys s \<longrightarrow> fst (get k (Setter (PromiseObj p)) now s) = Inr p)) \<and>
     isExpired e (Some a) now = (insertedAt e + a < now) \<and>
     \<not> isExpired e None now"
    using hit miss by (simp add: isExpired_def)
qed

text \<open>
  Witness for C4: \<^verbatim>\<open>maxAge = 100\<close>, \<^verbatim>\<open>'a'\<close> inserted at time 0; a hit at time 99, a miss at
  time 101.
\<close>

theorem C4_expiration_boundary_witness:
  "map_of (cacheEntries (snd (get ''a'' (Setter (PromiseObj 1)) 0 (newPromiseCache None (Some 100) None)))) ''a''
      = Some (newCacheEntry 0 ''a'' 1 0) \<and>
   maxAge (snd (get ''a'' (Setter (PromiseObj 1)) 0 (newPromiseCache None (Some 100) None))) = Some 100 \<and>
   plainKeys (snd (get ''a'' (Setter (PromiseObj 1)) 0 (newPromiseCache None (Some 100) None))) \<and>
   fst (get ''a'' (Setter (PromiseObj 2)) 99
         (snd (get ''a'' (Setter (PromiseObj 1)) 0 (newPromiseCache None (Some 100) None)))) = Inr 1 \<and>
   fst (get ''a'' (Setter (PromiseObj 2)) 101
         (snd (get ''a'' (Setter (PromiseObj 1)) 0 (newPromiseCache None (Some 100) None)))) = Inr 2"
proof -
  let ?s = "snd (get ''a'' (Setter (PromiseObj 1)) 0 (newPromiseCache None (Some 100) None))"
  have h1: "map_of (cacheEntries ?s) ''a'' = Some (newCacheEntry 0 ''a'' 1 0)" by code_simp
  have h2: "maxAge ?s = Some 100" by code_simp
  have h3: "plainKeys ?s" by code_simp
  show ?thesis
    using C4_expiration_boundary[of ?s "''a''" "newCacheEntry 0 ''a'' 1 0" 100 99 "PromiseObj 2" 2]
      C4_expiration_boundary[of ?s "''a''" "newCacheEntry 0 ''a'' 1 0" 100 101 "PromiseObj 2" 2]
      h1 h2 h3
    by (simp add: newCacheEntry_def)
qed

text \<open>
  Claim C4 as stated fails at the boundary: with \<^verbatim>\<open>maxAge = 100\<close> and \<^verbatim>\<open>'a'\<close> inserted at
  time 0, the \<^verbatim>\<open>get\<close> at time 100 returns the stored promise and invokes no setter.
\<close>

theorem C4_boundary_counterexample:
  "fst (get ''a'' (Setter (PromiseObj 2)) 100
         (snd (get ''a'' (Setter (PromiseObj 1)) 0 (newPromiseCache None (Some 100) None)))) = Inr 1 \<and>
   setterCalls (snd (get ''a'' (Setter (PromiseObj 2)) 100
         (snd (get ''a'' (Setter (PromiseObj 1)) 0 (newPromiseCache None (Some 100) None))))) = 1"
  by code_simp

subsection \<open>A setter that does not return a promise\<close>




subsection \<open>Keys that name no member of Object.prototype\<close>

lemma plainKeys_cong:
  "cacheEntries s' = cacheEntries s \<Longrightarrow> lruContents s' = lruContents s \<Longrightarrow>
     plainKeys s' = plainKeys s"
  by (simp add: plainKeys_def)

lemma plainKeys_sub:
  assumes "plainKeys s"
    and "set (cacheEntries s') \<subseteq> set (cacheEntries s)"
    and "set (lruContents s') \<subseteq> set (lruContents s)"
  shows "plainKeys s'"
  using assms unfolding plainKeys_def list_all_iff by blast

lemma plainKeys_clear: "plainKeys (clear s)"
  by (simp add: plainKeys_def cacheEntries_def lruContents_def clear_fields)

lemma plainKeys_new: "plainKeys (newPromiseCache msize mage pint)"
  by (simp add: plainKeys_def cacheEntries_def lruContents_def newPromiseCache_def)

lemma plainKeys_lazyInit: "plainKeys (lazyInit s) = plainKeys s"
  by (simp add: plainKeys_def lazyInit_obs)

lemma misses_plain:
  assumes "misses k now s" and "plainKeys s"
  shows "k \<notin> set objectPrototype"
proof (cases "map_of (cacheEntries s) k")
  case None
  then show ?thesis using assms(1) by (simp add: misses_iff)
next
  case (Some e)
  then have "(k, e) \<in> set (cacheEntries s)" by (rule map_of_SomeD)
  then show ?thesis using assms(2) by (auto simp add: plainKeys_def list_all_iff)
qed

lemma set_alist_update_sub: "set (AList.update k v m) \<subseteq> insert (k, v) (set m)"
  by (induction m) auto

lemma set_alist_delete_sub: "set (AList.delete k m) \<subseteq> set m"
  by (induction m) auto

lemma plainKeys_removeEntry:
  assumes "plainKeys s"
  shows "plainKeys (snd (removeEntry e s))"
proof (cases "size_pc s = 1")
  case True
  then show ?thesis by (simp add: removeEntry_def plainKeys_clear)
next
  case False
  show ?thesis
  proof (rule plainKeys_sub[OF assms])
    show "set (cacheEntries (snd (removeEntry e s))) \<subseteq> set (cacheEntries s)"
      using False set_alist_delete_sub[of "entryKey e"]
      by (auto simp add: removeEntry_def Let_def cacheEntries_def split: option.splits)
    show "set (lruContents (snd (removeEntry e s))) \<subseteq> set (lruContents s)"
      using False
      by (auto simp add: removeEntry_def Let_def lruContents_def unlink_def split: option.splits)
  qed
qed

lemma plainKeys_removeEntryInherited:
  assumes "plainKeys s"
  shows "plainKeys (snd (removeEntryInherited s))"
proof (cases "size_pc s = 1")
  case True
  then show ?thesis by (simp add: removeEntryInherited_def plainKeys_clear)
next
  case False
  then show ?thesis
    using assms
    by (simp add: removeEntryInherited_def plainKeys_def cacheEntries_update lruContents_update)
qed

lemma plainKeys_remove:
  assumes "plainKeys s"
  shows "plainKeys (snd (remove k s))"
  using remove_cases[of k s] assms
  by (auto simp add: plainKeys_removeEntry plainKeys_removeEntryInherited)

lemma plainKeys_inserted:
  assumes "plainKeys s" and "k \<notin> set objectPrototype"
  shows "plainKeys (inserted k p now (lazyInit s))"
proof -
  let ?e = "newCacheEntry (nextIdent s) k p now"
  have "set (cacheEntries (inserted k p now (lazyInit s))) \<subseteq> insert (k, ?e) (set (cacheEntries s))"
    by (simp add: inserted_obs lazyInit_fields lazyInit_obs set_alist_update_sub)
  moreover have "set (lruContents (inserted k p now (lazyInit s))) \<subseteq> insert ?e (set (lruContents s))"
    by (auto simp add: lruContents_def[of "inserted k p now (lazyInit s)"] inserted_fields
        lazyInit_fields pushMru_def lruContents_def[of s] split: option.splits)
  moreover have "entryKey ?e = k" by (simp add: newCacheEntry_def)
  ultimately show ?thesis
    using assms unfolding plainKeys_def list_all_iff by fastforce
qed

lemma plainKeys_evictLru:
  assumes "plainKeys s"
  shows "plainKeys (snd (evictLru s))"
  using assms by (simp add: evictLru_def plainKeys_remove split: option.splits)

lemma plainKeys_handlers:
  "plainKeys (s\<lparr> rejectHandlers := hs \<rparr>) = plainKeys s"
  "plainKeys (s\<lparr> setterCalls := n \<rparr>) = plainKeys s"
  by (simp_all add: plainKeys_def cacheEntries_update lruContents_update)

lemma plainKeys_get_miss:
  assumes "misses k now s" and "plainKeys s"
  shows "plainKeys (snd (get k (Setter (PromiseObj p)) now s))"
proof -
  have "k \<notin> set objectPrototype" using assms by (rule misses_plain)
  with assms(2) have "plainKeys (inserted k p now (lazyInit s))" by (rule plainKeys_inserted)
  then have "plainKeys (snd (evictLru (inserted k p now (lazyInit s))))" by (rule plainKeys_evictLru)
  then show ?thesis by (simp add: get_miss_promise[OF assms] plainKeys_handlers)
qed

lemma plainKeys_touchEntry:
  assumes "plainKeys s" and "map_of (cacheEntries s) k = Some e"
  shows "plainKeys (touchEntry e (lazyInit s))"
proof -
  have "(k, e) \<in> set (cacheEntries s)" using assms(2) by (rule map_of_SomeD)
  then have ek: "entryKey e \<notin> set objectPrototype"
    using assms(1) by (auto simp add: plainKeys_def list_all_iff)
  have "cacheEntries (touchEntry e (lazyInit s)) = cacheEntries s"
    by (simp add: cacheEntries_def[of "touchEntry e (lazyInit s)"] touchEntry_fields lazyInit_fields)
  moreover have "set (lruContents (touchEntry e (lazyInit s))) \<subseteq> insert e (set (lruContents s))"
    by (auto simp add: lruContents_def[of "touchEntry e (lazyInit s)"] touchEntry_fields
        lazyInit_fields touch_def unlink_def lruContents_def[of s] split: option.splits if_splits)
  ultimately show ?thesis
    using assms(1) ek unfolding plainKeys_def list_all_iff by fastforce
qed

lemma plainKeys_get:
  assumes "plainKeys s"
  shows "plainKeys (snd (get k st now s))"
proof (cases st)
  case NotCallable
  then show ?thesis using assms by (simp add: get_def)
next
  case (Setter v)
  show ?thesis
  proof (cases "lookup (cacheEntries s) k")
    case Inherited
    then show ?thesis using assms Setter by (simp add: get_inherited plainKeys_lazyInit)
  next
    case Absent
    then have miss: "misses k now s" by (simp add: misses_def)
    show ?thesis
    proof (cases v)
      case NonThenable
      then show ?thesis
        using assms Setter by (simp add: get_miss[OF miss] addEntry_def plainKeys_handlers plainKeys_lazyInit)
    next
      case (PromiseObj p)
      then show ?thesis using plainKeys_get_miss[OF miss assms] Setter by simp
    qed
  next
    case (Own e)
    then have st: "map_of (cacheEntries s) k = Some e"
      by (simp add: lookup_def split: option.splits if_splits)
    show ?thesis
    proof (cases "isExpired e (maxAge s) now")
      case False
      then show ?thesis
        using Setter plainKeys_touchEntry[OF assms st] by (simp add: get_hit[OF st])
    next
      case True
      then have miss: "misses k now s" using Own by (simp add: misses_def)
      show ?thesis
      proof (cases v)
        case NonThenable
        then show ?thesis
          using assms Setter
          by (simp add: get_miss[OF miss] addEntry_def plainKeys_handlers plainKeys_lazyInit)
      next
        case (PromiseObj p)
        then show ?thesis using plainKeys_get_miss[OF miss assms] Setter by simp
      qed
    qed
  qed
qed

subsection \<open>Entries under their own keys\<close>

lemma entriesKeyed_sub:
  assumes "entriesKeyed s" and "cacheEntries s' = filter P (cacheEntries s)"
  shows "entriesKeyed s'"
  using assms by (simp add: entriesKeyed_def distinct_map_filter list_all_iff)

lemma entriesKeyed_removeEntry:
  assumes "entriesKeyed s"
  shows "entriesKeyed (snd (removeEntry e s))"
proof (cases "size_pc s = 1")
  case True
  then show ?thesis by (simp add: removeEntry_def entriesKeyed_def cacheEntries_def clear_fields)
next
  case False
  have "cacheEntries (snd (removeEntry e s)) = [] \<or>
        cacheEntries (snd (removeEntry e s)) = AList.delete (entryKey e) (cacheEntries s)"
    using False by (auto simp add: removeEntry_def Let_def cacheEntries_def split: option.splits)
  then show ?thesis
    using assms by (auto simp add: entriesKeyed_def distinct_delete list_all_delete)
qed

lemma entriesKeyed_removeEntryInherited:
  assumes "entriesKeyed s"
  shows "entriesKeyed (snd (removeEntryInherited s))"
proof (cases "size_pc s = 1")
  case True
  then show ?thesis
    by (simp add: removeEntryInherited_def entriesKeyed_def cacheEntries_def clear_fields)
next
  case False
  then show ?thesis
    using assms by (simp add: removeEntryInherited_def entriesKeyed_def cacheEntries_update)
qed

lemma entriesKeyed_remove:
  assumes "entriesKeyed s"
  shows "entriesKeyed (snd (remove k s))"
proof -
  consider "remove k s = (Inr (), s)" | "remove k s = removeEntryInherited s"
    | e where "remove k s = removeEntry e s"
    using remove_cases[of k s] by blast
  then show ?thesis
  proof cases
    case 1
    then show ?thesis using assms by simp
  next
    case 2
    then show ?thesis using entriesKeyed_removeEntryInherited[OF assms] by simp
  next
    case 3
    then show ?thesis using entriesKeyed_removeEntry[OF assms, of e] by simp
  qed
qed

lemma entriesKeyed_get_miss:
  assumes "entriesKeyed s" and "misses k now s" and "plainKeys s"
  shows "entriesKeyed (snd (get k (Setter (PromiseObj p)) now s))"
proof -
  have "entriesKeyed (inserted k p now (lazyInit s))" using assms(1) by (rule entriesKeyed_inserted)
  then have "entriesKeyed (snd (evictLru (inserted k p now (lazyInit s))))"
    by (simp add: evictLru_def entriesKeyed_remove split: option.splits)
  then show ?thesis
    by (simp add: get_miss_promise[OF assms(2,3)] entriesKeyed_def cacheEntries_update)
qed

subsection \<open>Rejection and the stale-entry guard\<close>

lemma removeIfEntry_other:
  assumes "map_of (cacheEntries s) k = Some e'" and "ident e' \<noteq> ident e"
  shows "removeIfEntry k e s = (Inr (), s)"
  using assms by (cases "cache s") (simp_all add: removeIfEntry_def cacheEntries_def lookup_own)

lemma removeIfEntry_same:
  assumes "map_of (cacheEntries s) k = Some e'" and "ident e' = ident e"
  shows "removeIfEntry k e s = remove k s"
  using assms by (cases "cache s") (simp_all add: removeIfEntry_def cacheEntries_def lookup_own)

lemma runHandlers_stale:
  assumes "list_all (\<lambda>h. staleHandler h s) hs"
  shows "runHandlers hs s = s"
  using assms
proof (induction hs)
  case Nil
  then show ?case by simp
next
  case (Cons h hs)
  obtain p k e where h: "h = (p, k, e)" by (cases h)
  from Cons.prems h obtain e' where "map_of (cacheEntries s) k = Some e'" and "ident e' \<noteq> ident e"
    by (auto simp add: staleHandler_def split: option.splits)
  then have "removeIfEntry k e s = (Inr (), s)" by (rule removeIfEntry_other)
  with Cons h show ?case by simp
qed

lemma staleHandler_handlers_update:
  "staleHandler h (s\<lparr> rejectHandlers := hs \<rparr>) = staleHandler h s"
  by (simp add: staleHandler_def cacheEntries_def)

lemma reject_stale:
  assumes "list_all (\<lambda>h. fst h \<noteq> p \<or> staleHandler h s) (rejectHandlers s)"
  shows "reject p s = s\<lparr> rejectHandlers := filter (\<lambda>h. fst h \<noteq> p) (rejectHandlers s) \<rparr>"
proof -
  have "list_all (\<lambda>h. staleHandler h (s\<lparr> rejectHandlers := filter (\<lambda>h. fst h \<noteq> p) (rejectHandlers s) \<rparr>))
          (filter (\<lambda>h. fst h = p) (rejectHandlers s))"
    using assms by (auto simp add: list_all_iff staleHandler_handlers_update)
  then show ?thesis unfolding reject_def by (rule runHandlers_stale)
qed

lemma removeIfEntry_none:
  assumes "map_of (cacheEntries s) k = None"
  shows "removeIfEntry k e s = (Inr (), s)"
  using assms
  by (cases "cache s") (simp_all add: removeIfEntry_def cacheEntries_def lookup_def)

text \<open>After a miss the key holds the entry just created, or nothing if the eviction took it.\<close>

lemma map_of_removeEntry:
  "map_of (cacheEntries (snd (removeEntry e' s))) k = None \<or>
   map_of (cacheEntries (snd (removeEntry e' s))) k = map_of (cacheEntries s) k"
  by (auto simp add: removeEntry_def Let_def cacheEntries_def clear_fields delete_conv
      split: option.splits)

lemma map_of_remove:
  "map_of (cacheEntries (snd (remove j s))) k = None \<or>
   map_of (cacheEntries (snd (remove j s))) k = map_of (cacheEntries s) k"
proof -
  consider "remove j s = (Inr (), s)" | "remove j s = removeEntryInherited s"
    | e where "remove j s = removeEntry e s"
    using remove_cases[of j s] by blast
  then show ?thesis
  proof cases
    case 1
    then show ?thesis by simp
  next
    case 2
    then show ?thesis
      by (simp add: removeEntryInherited_def cacheEntries_update cacheEntries_def[of "clear s"] clear_fields)
  next
    case 3
    then show ?thesis using map_of_removeEntry[of e s k] by simp
  qed
qed

lemma get_miss_lookup:
  assumes "misses k now s" and "plainKeys s"
  shows "map_of (cacheEntries (snd (get k (Setter (PromiseObj p)) now s))) k = None \<or>
         map_of (cacheEntries (snd (get k (Setter (PromiseObj p)) now s))) k
           = Some (newCacheEntry (nextIdent s) k p now)"
proof -
  let ?I = "inserted k p now (lazyInit s)"
  have I: "map_of (cacheEntries ?I) k = Some (newCacheEntry (nextIdent s) k p now)"
    by (simp add: inserted_obs lazyInit_fields lazyInit_obs update_conv')
  have "map_of (cacheEntries (snd (evictLru ?I))) k = None \<or>
        map_of (cacheEntries (snd (evictLru ?I))) k = map_of (cacheEntries ?I) k"
    using map_of_remove[of _ ?I k] by (simp add: evictLru_def split: option.splits)
  then show ?thesis
    unfolding I by (simp add: get_miss_promise[OF assms] cacheEntries_update)
qed

lemma get_miss_env:
  assumes "misses k now s" and "plainKeys s"
  shows "nextIdent (snd (get k (Setter (PromiseObj p)) now s)) = Suc (nextIdent s)"
    and "rejectHandlers (snd (get k (Setter (PromiseObj p)) now s))
           = rejectHandlers s @ [(p, k, newCacheEntry (nextIdent s) k p now)]"
proof -
  have "nextIdent (snd (evictLru (inserted k p now (lazyInit s)))) = Suc (nextIdent s)"
    by (simp add: evictLru_def remove_fields inserted_fields lazyInit_fields split: option.splits)
  then show "nextIdent (snd (get k (Setter (PromiseObj p)) now s)) = Suc (nextIdent s)"
    by (simp add: get_miss_promise[OF assms])
  show "rejectHandlers (snd (get k (Setter (PromiseObj p)) now s))
           = rejectHandlers s @ [(p, k, newCacheEntry (nextIdent s) k p now)]"
    by (simp add: get_miss_promise[OF assms])
qed

text \<open>
  The scenario of the guard, end to end: a miss inserts under \<open>k\<close> an entry for the
  promise \<open>p1\<close>; a later miss on \<open>k\<close> inserts an entry for another promise \<open>p2\<close>; then
  \<open>p1\<close> is rejected.
\<close>

lemma reject_after_overwrite:
  assumes plain: "plainKeys s"
    and m1: "misses k t1 s"
    and m2: "misses k t2 (snd (get k (Setter (PromiseObj p1)) t1 s))"
    and ne: "p1 \<noteq> p2"
    and new: "p1 \<notin> fst ` set (rejectHandlers s)"
  shows "reject p1 (snd (get k (Setter (PromiseObj p2)) t2 (snd (get k (Setter (PromiseObj p1)) t1 s))))
     = (snd (get k (Setter (PromiseObj p2)) t2 (snd (get k (Setter (PromiseObj p1)) t1 s))))
         \<lparr> rejectHandlers := rejectHandlers s @ [(p2, k, newCacheEntry (Suc (nextIdent s)) k p2 t2)] \<rparr>"
proof -
  let ?s1 = "snd (get k (Setter (PromiseObj p1)) t1 s)"
  let ?s2 = "snd (get k (Setter (PromiseObj p2)) t2 ?s1)"
  let ?e1 = "newCacheEntry (nextIdent s) k p1 t1"
  let ?e2 = "newCacheEntry (Suc (nextIdent s)) k p2 t2"
  have plain1: "plainKeys ?s1" using m1 plain by (rule plainKeys_get_miss)
  note env1 = get_miss_env[OF m1 plain, of p1]
  note env2 = get_miss_env[OF m2 plain1, of p2]
  have hs: "rejectHandlers ?s2 = rejectHandlers s @ [(p1, k, ?e1), (p2, k, ?e2)]"
    using env1 env2 by simp
  have old: "filter (\<lambda>h. fst h = p1) (rejectHandlers s) = []"
    using new by (auto simp add: filter_empty_conv)
  have keep: "filter (\<lambda>h. fst h \<noteq> p1) (rejectHandlers s) = rejectHandlers s"
    using new by (auto simp add: filter_id_conv)
  have f1: "filter (\<lambda>h. fst h = p1) (rejectHandlers ?s2) = [(p1, k, ?e1)]"
    unfolding hs using old ne by simp
  have f2: "filter (\<lambda>h. fst h \<noteq> p1) (rejectHandlers ?s2) = rejectHandlers s @ [(p2, k, ?e2)]"
    unfolding hs using keep ne by simp
  let ?s2' = "?s2\<lparr> rejectHandlers := rejectHandlers s @ [(p2, k, ?e2)] \<rparr>"
  have lk: "map_of (cacheEntries ?s2) k = None \<or> map_of (cacheEntries ?s2) k = Some ?e2"
    using get_miss_lookup[OF m2 plain1, of p2] env1 by simp
  have ce: "cacheEntries ?s2' = cacheEntries ?s2" by (simp add: cacheEntries_update)
  have "removeIfEntry k ?e1 ?s2' = (Inr (), ?s2')"
  proof (cases "map_of (cacheEntries ?s2) k")
    case None
    then show ?thesis using ce by (simp add: removeIfEntry_none)
  next
    case (Some e')
    with lk have "e' = ?e2" by simp
    then have "ident e' \<noteq> ident ?e1" by (simp add: newCacheEntry_def)
    with Some ce show ?thesis by (simp add: removeIfEntry_other)
  qed
  then show ?thesis
    unfolding reject_def f1 f2 by simp
qed

text \<open>
  Claim C6. A \<^verbatim>\<open>get\<close> that inserts registers on its promise the continuation
  \<^verbatim>\<open>removeIfEntry(k, e)\<close> for the entry \<open>e\<close> it created. When that continuation runs while
  \<open>k\<close> holds another entry (a newer one that overwrote \<open>e\<close>), it changes nothing; it
  removes the key, by the path of \<^verbatim>\<open>remove\<close>, only when \<open>k\<close> still holds the very entry
  \<open>e\<close>. Hence rejecting a promise \<open>q\<close> all of whose continuations are stale leaves the
  map, the counter, the LRU list and the pruning interval untouched. End to end: let a
  miss on \<open>k\<close> at time \<open>t1\<close> insert an entry for a promise \<open>p1\<close> not seen before, and let
  a later miss on \<open>k\<close> at time \<open>t2\<close> (the first entry has expired, or has been evicted)
  insert an entry for another promise \<open>p2\<close>. The two entries have different identities
  (\<open>nextIdent s\<close> and its successor), and the rejection of \<open>p1\<close> changes nothing but the
  list of pending continuations; so the entry stored for \<open>p2\<close> is under \<open>k\<close> after the
  rejection as before (and it is stored there when the entries sit under their own keys
  and the second insertion keeps what it inserts). The cache is one in which no key
  bears the name of a member of \<^verbatim>\<open>Object.prototype\<close>, as in every state the methods can
  reach.
\<close>

theorem C6_stale_entry_guard:
  "(misses k now s \<and> plainKeys s \<longrightarrow>
      rejectHandlers (snd (get k (Setter (PromiseObj p)) now s))
        = rejectHandlers s @ [(p, k, newCacheEntry (nextIdent s) k p now)]) \<and>
   (map_of (cacheEntries s) k = Some e' \<and> ident e' \<noteq> ident e \<longrightarrow>
      removeIfEntry k e s = (Inr (), s)) \<and>
   (map_of (cacheEntries s) k = Some e' \<and> ident e' = ident e \<longrightarrow>
      removeIfEntry k e s = remove k s) \<and>
   (list_all (\<lambda>h. fst h \<noteq> q \<or> staleHandler h s) (rejectHandlers s) \<longrightarrow>
      cache (reject q s) = cache s \<and>
      size_pc (reject q s) = size_pc s \<and>
      lruList (reject q s) = lruList s \<and>
      pruningIntervalId (reject q s) = pruningIntervalId s) \<and>
   (plainKeys s \<and> misses k t1 s \<and> misses k t2 (snd (get k (Setter (PromiseObj p1)) t1 s)) \<and>
    p1 \<noteq> p2 \<and> p1 \<notin> fst ` set (rejectHandlers s) \<longrightarrow>
      ident (newCacheEntry (nextIdent (snd (get k (Setter (PromiseObj p1)) t1 s))) k p2 t2)
        \<noteq> ident (newCacheEntry (nextIdent s) k p1 t1) \<and>
      reject p1 (snd (get k (Setter (PromiseObj p2)) t2 (snd (get k (Setter (PromiseObj p1)) t1 s))))
        = (snd (get k (Setter (PromiseObj p2)) t2 (snd (get k (Setter (PromiseObj p1)) t1 s))))
            \<lparr> rejectHandlers :=
                 rejectHandlers s @
                 [(p2, k, newCacheEntry (nextIdent (snd (get k (Setter (PromiseObj p1)) t1 s))) k p2 t2)] \<rparr> \<and>
      (entriesKeyed s \<and> keepsInserted k (snd (get k (Setter (PromiseObj p1)) t1 s)) \<longrightarrow>
         map_of (cacheEntries (reject p1
             (snd (get k (Setter (PromiseObj p2)) t2 (snd (get k (Setter (PromiseObj p1)) t1 s)))))) k
           = Some (newCacheEntry (nextIdent (snd (get k (Setter (PromiseObj p1)) t1 s))) k p2 t2)))"
proof -
  have c1: "rejectHandlers (snd (get k (Setter (PromiseObj p)) now s))
        = rejectHandlers s @ [(p, k, newCacheEntry (nextIdent s) k p now)]"
    if "misses k now s" and "plainKeys s"
    using that by (rule get_miss_env)
  have c2: "removeIfEntry k e s = (Inr (), s)"
    if "map_of (cacheEntries s) k = Some e'" and "ident e' \<noteq> ident e"
    using that by (rule removeIfEntry_other)
  have c3: "removeIfEntry k e s = remove k s"
    if "map_of (cacheEntries s) k = Some e'" and "ident e' = ident e"
    using that by (rule removeIfEntry_same)
  have c4: "cache (reject q s) = cache s \<and> size_pc (reject q s) = size_pc s \<and>
      lruList (reject q s) = lruList s \<and> pruningIntervalId (reject q s) = pruningIntervalId s"
    if "list_all (\<lambda>h. fst h \<noteq> q \<or> staleHandler h s) (rejectHandlers s)"
    using that by (simp add: reject_stale)
  let ?s1 = "snd (get k (Setter (PromiseObj p1)) t1 s)"
  let ?s2 = "snd (get k (Setter (PromiseObj p2)) t2 ?s1)"
  let ?e2 = "newCacheEntry (nextIdent ?s1) k p2 t2"
  have c5: "ident ?e2 \<noteq> ident (newCacheEntry (nextIdent s) k p1 t1) \<and>
      reject p1 ?s2 = ?s2\<lparr> rejectHandlers := rejectHandlers s @ [(p2, k, ?e2)] \<rparr> \<and>
      (entriesKeyed s \<and> keepsInserted k ?s1 \<longrightarrow>
         map_of (cacheEntries (reject p1 ?s2)) k = Some ?e2)"
    if plain: "plainKeys s" and m1: "misses k t1 s" and m2: "misses k t2 ?s1"
      and ne: "p1 \<noteq> p2" and new: "p1 \<notin> fst ` set (rejectHandlers s)"
  proof -
    have ni: "nextIdent ?s1 = Suc (nextIdent s)" using m1 plain by (rule get_miss_env)
    have r: "reject p1 ?s2 = ?s2\<lparr> rejectHandlers := rejectHandlers s @ [(p2, k, ?e2)] \<rparr>"
      unfolding ni using plain m1 m2 ne new by (rule reject_after_overwrite)
    have plain1: "plainKeys ?s1" using m1 plain by (rule plainKeys_get_miss)
    have st: "map_of (cacheEntries (reject p1 ?s2)) k = Some ?e2"
      if keyed: "entriesKeyed s" and keep: "keepsInserted k ?s1"
    proof -
      have "entriesKeyed ?s1" using keyed m1 plain by (rule entriesKeyed_get_miss)
      then have "map_of (cacheEntries ?s2) k = Some ?e2"
        using plain1 m2 keep by (rule stored_after_miss)
      then show ?thesis unfolding r by (simp add: cacheEntries_update)
    qed
    show ?thesis using ni r st by (simp add: newCacheEntry_def)
  qed
  show ?thesis
    using c1 c2 c3 c4 c5 by blast
qed

text \<open>
  Witness for C6: \<^verbatim>\<open>maxAge = 10\<close>; \<^verbatim>\<open>'a'\<close> is inserted at time 0 with promise 1 and
  overwritten at time 20 with promise 2; then promise 1 is rejected.
\<close>

theorem C6_stale_entry_guard_witness:
  "plainKeys (newPromiseCache None (Some 10) None) \<and>
   entriesKeyed (newPromiseCache None (Some 10) None) \<and>
   misses ''a'' 0 (newPromiseCache None (Some 10) None) \<and>
   misses ''a'' 20 (snd (get ''a'' (Setter (PromiseObj 1)) 0 (newPromiseCache None (Some 10) None))) \<and>
   keepsInserted ''a'' (snd (get ''a'' (Setter (PromiseObj 1)) 0 (newPromiseCache None (Some 10) None))) \<and>
   rejectHandlers (getAll [(''a'', 1, 0), (''a'', 2, 20)] (newPromiseCache None (Some 10) None))
     = [(1, ''a'', newCacheEntry 0 ''a'' 1 0), (2, ''a'', newCacheEntry 1 ''a'' 2 20)] \<and>
   map_of (cacheEntries (getAll [(''a'', 1, 0), (''a'', 2, 20)] (newPromiseCache None (Some 10) None))) ''a''
     = Some (newCacheEntry 1 ''a'' 2 20) \<and>
   removeIfEntry ''a'' (newCacheEntry 0 ''a'' 1 0)
       (getAll [(''a'', 1, 0), (''a'', 2, 20)] (newPromiseCache None (Some 10) None))
     = (Inr (), getAll [(''a'', 1, 0), (''a'', 2, 20)] (newPromiseCache None (Some 10) None)) \<and>
   removeIfEntry ''a'' (newCacheEntry 1 ''a'' 2 20)
       (getAll [(''a'', 1, 0), (''a'', 2, 20)] (newPromiseCache None (Some 10) None))
     = remove ''a'' (getAll [(''a'', 1, 0), (''a'', 2, 20)] (newPromiseCache None (Some 10) None)) \<and>
   cache (reject 1 (getAll [(''a'', 1, 0), (''a'', 2, 20)] (newPromiseCache None (Some 10) None)))
     = Some [(''a'', newCacheEntry 1 ''a'' 2 20)] \<and>
   map_of (cacheEntries (reject 1 (getAll [(''a'', 1, 0), (''a'', 2, 20)] (newPromiseCache None (Some 10) None)))) ''a''
     = Some (newCacheEntry 1 ''a'' 2 20) \<and>
   rejectHandlers (reject 1 (getAll [(''a'', 1, 0), (''a'', 2, 20)] (newPromiseCache None (Some 10) None)))
     = [(2, ''a'', newCacheEntry 1 ''a'' 2 20)]"
proof -
  define s0 where "s0 = newPromiseCache None (Some 10) None"
  define s1 where "s1 = snd (get ''a'' (Setter (PromiseObj 1)) 0 s0)"
  define s2 where "s2 = snd (get ''a'' (Setter (PromiseObj 2)) 20 s1)"
  have g: "getAll [(''a'', 1, 0), (''a'', 2, 20)] (newPromiseCache None (Some 10) None) = s2"
    by (simp add: s2_def s1_def s0_def)
  have a1: "plainKeys s0" unfolding s0_def by code_simp
  have a2: "entriesKeyed s0" unfolding s0_def by code_simp
  have a3: "misses ''a'' 0 s0" unfolding s0_def by code_simp
  have a4: "misses ''a'' 20 s1" unfolding s1_def s0_def by code_simp
  have a5: "keepsInserted ''a'' s1" unfolding s1_def s0_def by code_simp
  have a6: "(1::nat) \<notin> fst ` set (rejectHandlers s0)" unfolding s0_def by code_simp
  have a7: "plainKeys s1" unfolding s1_def s0_def by code_simp
  have h0: "rejectHandlers s0 = []" unfolding s0_def by code_simp
  have h2: "rejectHandlers s1 = [(1, ''a'', newCacheEntry 0 ''a'' 1 0)]"
    unfolding s1_def s0_def by code_simp
  have h3: "nextIdent s1 = 1" unfolding s1_def s0_def by code_simp
  have h4: "map_of (cacheEntries s2) ''a'' = Some (newCacheEntry 1 ''a'' 2 20)"
    unfolding s2_def s1_def s0_def by code_simp
  have h5: "list_all (\<lambda>h. fst h \<noteq> 1 \<or> staleHandler h s2) (rejectHandlers s2)"
    unfolding s2_def s1_def s0_def by code_simp
  have h6: "cache s2 = Some [(''a'', newCacheEntry 1 ''a'' 2 20)]"
    unfolding s2_def s1_def s0_def by code_simp
  have i0: "ident (newCacheEntry 1 ''a'' 2 20) \<noteq> ident (newCacheEntry 0 ''a'' 1 0)"
    by (simp add: newCacheEntry_def)
  note t0 = C6_stale_entry_guard[where k="''a''" and s=s0 and ?t1.0=0 and ?t2.0=20 and ?p1.0=1
      and ?p2.0=2, unfolded s1_def[symmetric] s2_def[symmetric]]
  note t1 = C6_stale_entry_guard[where k="''a''" and now=20 and s=s1 and p=2,
      unfolded s2_def[symmetric]]
  note t2 = C6_stale_entry_guard[where k="''a''" and s=s2 and e'="newCacheEntry 1 ''a'' 2 20"
      and e="newCacheEntry 0 ''a'' 1 0" and q=1]
  note t3 = C6_stale_entry_guard[where k="''a''" and s=s2 and e'="newCacheEntry 1 ''a'' 2 20"
      and e="newCacheEntry 1 ''a'' 2 20"]
  have w1: "rejectHandlers s2 = [(1, ''a'', newCacheEntry 0 ''a'' 1 0), (2, ''a'', newCacheEntry 1 ''a'' 2 20)]"
    using t1 a4 a7 h2 h3 by simp
  have w2: "removeIfEntry ''a'' (newCacheEntry 0 ''a'' 1 0) s2 = (Inr (), s2)"
    using t2 h4 i0 by blast
  have w3: "removeIfEntry ''a'' (newCacheEntry 1 ''a'' 2 20) s2 = remove ''a'' s2"
    using t3 h4 by blast
  have w4: "cache (reject 1 s2) = Some [(''a'', newCacheEntry 1 ''a'' 2 20)]"
    using t2 h5 h6 by simp
  have ne: "(1::nat) \<noteq> 2" by simp
  have "map_of (cacheEntries (reject 1 s2)) ''a'' = Some (newCacheEntry (nextIdent s1) ''a'' 2 20)"
    using t0 a1 a2 a3 a4 a5 a6 ne by blast
  then have w5: "map_of (cacheEntries (reject 1 s2)) ''a'' = Some (newCacheEntry 1 ''a'' 2 20)"
    by (simp only: h3)
  have "reject 1 s2 = s2\<lparr> rejectHandlers := rejectHandlers s0 @ [(2, ''a'', newCacheEntry (nextIdent s1) ''a'' 2 20)] \<rparr>"
    using t0 a1 a3 a4 a6 ne by blast
  then have w6: "rejectHandlers (reject 1 s2) = [(2, ''a'', newCacheEntry 1 ''a'' 2 20)]"
    by (simp add: h0 h3)
  have "plainKeys s0 \<and> entriesKeyed s0 \<and> misses ''a'' 0 s0 \<and> misses ''a'' 20 s1 \<and>
    keepsInserted ''a'' s1 \<and>
    rejectHandlers s2 = [(1, ''a'', newCacheEntry 0 ''a'' 1 0), (2, ''a'', newCacheEntry 1 ''a'' 2 20)] \<and>
    map_of (cacheEntries s2) ''a'' = Some (newCacheEntry 1 ''a'' 2 20) \<and>
    removeIfEntry ''a'' (newCacheEntry 0 ''a'' 1 0) s2 = (Inr (), s2) \<and>
    removeIfEntry ''a'' (newCacheEntry 1 ''a'' 2 20) s2 = remove ''a'' s2 \<and>
    cache (reject 1 s2) = Some [(''a'', newCacheEntry 1 ''a'' 2 20)] \<and>
    map_of (cacheEntries (reject 1 s2)) ''a'' = Some (newCacheEntry 1 ''a'' 2 20) \<and>
    rejectHandlers (reject 1 s2) = [(2, ''a'', newCacheEntry 1 ''a'' 2 20)]"
    using a1 a2 a3 a4 a5 w1 h4 w2 w3 w4 w5 w6 by simp
  then show ?thesis unfolding g[symmetric] s1_def s0_def .
qed

subsection \<open>The frame of destroy\<close>

lemma destroy_eq:
  "destroy s =
     s\<lparr> cache := None, pruningIntervalId := None,
        intervals := (case pruningIntervalId s of
                        None \<Rightarrow> intervals s
                      | Some i \<Rightarrow> removeAll i (intervals s)) \<rparr>"
  by (cases s) (simp add: destroy_def stopPruningInterval_def split: option.splits)

lemma destroy_fields:
  "cache (destroy s) = None"
  "size_pc (destroy s) = size_pc s"
  "lruList (destroy s) = lruList s"
  "maxSize (destroy s) = maxSize s"
  "maxAge (destroy s) = maxAge s"
  "pruneInterval (destroy s) = pruneInterval s"
  "pruningIntervalId (destroy s) = None"
  "nextIdent (destroy s) = nextIdent s"
  "setterCalls (destroy s) = setterCalls s"
  "rejectHandlers (destroy s) = rejectHandlers s"
  by (simp_all add: destroy_def stopPruningInterval_fields)

lemma destroy_obs:
  "cacheEntries (destroy s) = []"
  "lruContents (destroy s) = lruContents s"
  by (simp_all add: cacheEntries_def lruContents_def destroy_fields)

lemma misses_destroy:
  assumes "k \<notin> set objectPrototype"
  shows "misses k now (destroy s)"
  using assms by (simp add: misses_iff destroy_obs)

lemma inserted_after_destroy:
  "cacheEntries (inserted k p now (lazyInit (destroy s))) = [(k, newCacheEntry (nextIdent s) k p now)]"
  "size_pc (inserted k p now (lazyInit (destroy s))) = size_pc s + 1"
  "lruContents (inserted k p now (lazyInit (destroy s)))
     = (if lruList s = None \<and> maxSize s = None then []
        else newCacheEntry (nextIdent s) k p now # lruContents s)"
  "lruList (inserted k p now (lazyInit (destroy s)))
     = (if lruList s = None \<and> maxSize s = None then None
        else Some (newCacheEntry (nextIdent s) k p now # lruContents s))"
  "maxSize (inserted k p now (lazyInit (destroy s))) = maxSize s"
  "rejectHandlers (inserted k p now (lazyInit (destroy s))) = rejectHandlers s"
  by (auto simp add: inserted_obs inserted_fields lazyInit_fields lazyInit_obs destroy_fields
      destroy_obs lruContents_def pushMru_def split: option.splits)

lemma evictLru_after_destroy:
  "evictLru (inserted k p now (lazyInit (destroy s))) =
     (case maxSize s of
        None \<Rightarrow> (Inr (), inserted k p now (lazyInit (destroy s)))
      | Some n \<Rightarrow>
          if size_pc s + 1 > n
          then remove (entryKey (last (newCacheEntry (nextIdent s) k p now # lruContents s)))
                 (inserted k p now (lazyInit (destroy s)))
          else (Inr (), inserted k p now (lazyInit (destroy s))))"
  unfolding evictLru_inserted[of k p now "destroy s"] destroy_fields destroy_obs ..

text \<open>The three outcomes of the eviction check after \<^verbatim>\<open>destroy\<close>.\<close>

lemma get_after_destroy_fits:
  assumes "k \<notin> set objectPrototype"
    and "case maxSize s of None \<Rightarrow> True | Some n \<Rightarrow> size_pc s + 1 \<le> n"
  shows "get k (Setter (PromiseObj p)) now (destroy s) =
     (Inr p, (inserted k p now (lazyInit (destroy s)))
        \<lparr> rejectHandlers := rejectHandlers s @ [(p, k, newCacheEntry (nextIdent s) k p now)] \<rparr>)"
proof -
  have "evictLru (inserted k p now (lazyInit (destroy s))) = (Inr (), inserted k p now (lazyInit (destroy s)))"
    using assms(2) by (simp add: evictLru_after_destroy split: option.splits)
  then show ?thesis
    by (simp add: get_miss_any[OF misses_destroy[OF assms(1)]] destroy_fields inserted_after_destroy)
qed

lemma get_after_destroy_other:
  assumes "k \<notin> set objectPrototype"
    and "maxSize s = Some n" and "n < size_pc s + 1"
    and "entryKey (last (newCacheEntry (nextIdent s) k p now # lruContents s)) \<noteq> k"
    and "entryKey (last (newCacheEntry (nextIdent s) k p now # lruContents s)) \<notin> set objectPrototype"
  shows "get k (Setter (PromiseObj p)) now (destroy s) =
     (Inr p, (inserted k p now (lazyInit (destroy s)))
        \<lparr> rejectHandlers := rejectHandlers s @ [(p, k, newCacheEntry (nextIdent s) k p now)] \<rparr>)"
proof -
  let ?I = "inserted k p now (lazyInit (destroy s))"
  define j where "j = entryKey (last (newCacheEntry (nextIdent s) k p now # lruContents s))"
  have jk: "j \<noteq> k" and jp: "j \<notin> set objectPrototype"
    using assms(4,5) unfolding j_def by simp_all
  have ni: "lookup (cacheEntries ?I) j \<noteq> Inherited"
    using jp by (simp add: lookup_inherited)
  have "map_of (cacheEntries ?I) j = None"
    using jk by (simp add: inserted_after_destroy)
  then have "remove j ?I = (Inr (), ?I)" by (simp add: remove_eq[OF ni])
  moreover have "evictLru ?I = remove j ?I"
    unfolding j_def using assms(2,3) by (simp only: evictLru_after_destroy option.case if_True)
  ultimately have "evictLru ?I = (Inr (), ?I)" by simp
  then show ?thesis
    by (simp add: get_miss_any[OF misses_destroy[OF assms(1)]] destroy_fields inserted_after_destroy)
qed

lemma get_after_destroy_self:
  assumes "k \<notin> set objectPrototype"
    and "maxSize s = Some n" and "n < size_pc s + 1"
    and "entryKey (last (newCacheEntry (nextIdent s) k p now # lruContents s)) = k"
  shows "fst (get k (Setter (PromiseObj p)) now (destroy s)) = Inr p"
    and "cacheEntries (snd (get k (Setter (PromiseObj p)) now (destroy s))) = []"
    and "size_pc (snd (get k (Setter (PromiseObj p)) now (destroy s))) = size_pc s"
    and "lruContents (snd (get k (Setter (PromiseObj p)) now (destroy s)))
           = (if size_pc s = 0 then [] else unlink (newCacheEntry (nextIdent s) k p now) (lruContents s))"
proof -
  let ?e = "newCacheEntry (nextIdent s) k p now"
  let ?I = "inserted k p now (lazyInit (destroy s))"
  let ?R = "if size_pc ?I = 1 then clear ?I
            else ?I\<lparr> size_pc := size_pc ?I - 1,
                     lruList := map_option (unlink ?e) (lruList ?I),
                     cache := Some (AList.delete (entryKey ?e) (cacheEntries ?I)) \<rparr>"
  have st: "map_of (cacheEntries ?I) k = Some ?e" by (simp add: inserted_after_destroy)
  then have ni: "lookup (cacheEntries ?I) k \<noteq> Inherited" by (simp add: lookup_inherited)
  have "remove k ?I = (Inr (), ?R)" using st by (simp add: remove_eq[OF ni])
  moreover have "evictLru ?I = remove k ?I"
    using assms(2,3) by (simp only: evictLru_after_destroy option.case if_True assms(4))
  ultimately have ev: "evictLru ?I = (Inr (), ?R)" by simp
  have g: "get k (Setter (PromiseObj p)) now (destroy s) =
      (Inr p, ?R\<lparr> rejectHandlers := rejectHandlers ?R @ [(p, k, ?e)] \<rparr>)"
    by (simp add: get_miss_any[OF misses_destroy[OF assms(1)]] ev destroy_fields)
  show "fst (get k (Setter (PromiseObj p)) now (destroy s)) = Inr p" by (simp add: g)
  have ek: "entryKey ?e = k" by (simp add: newCacheEntry_def)
  have ul: "unlink ?e (?e # lruContents s) = unlink ?e (lruContents s)"
    by (simp add: unlink_def)
  have li: "lruList ?I = Some (?e # lruContents s)"
    by (simp add: inserted_after_destroy assms(2))
  show "cacheEntries (snd (get k (Setter (PromiseObj p)) now (destroy s))) = []"
    by (simp add: g cacheEntries_update cacheEntries_def[of "clear ?I"] clear_fields
        inserted_after_destroy ek)
  show "size_pc (snd (get k (Setter (PromiseObj p)) now (destroy s))) = size_pc s"
    by (simp add: g clear_fields inserted_after_destroy)
  show "lruContents (snd (get k (Setter (PromiseObj p)) now (destroy s)))
           = (if size_pc s = 0 then [] else unlink ?e (lruContents s))"
    by (simp add: g lruContents_update lruContents_def[of "clear ?I"] clear_fields
        inserted_after_destroy(2) li ul)
qed

text \<open>
  Claim C10. \<^verbatim>\<open>destroy()\<close> sets the map to absent, clears the handle of the pruning
  interval and cancels the interval; every other field, the counter and the LRU list
  among them, keeps its value, in every state. A \<^verbatim>\<open>get\<close> after \<^verbatim>\<open>destroy()\<close> works on
  a new, empty map with the old counter and the old LRU list. For a key that names a
  member of \<^verbatim>\<open>Object.prototype\<close> it throws on the new map. For any other key it calls
  the setter and inserts: the new map holds the new entry alone, the counter is the old
  counter plus one, the LRU list is the old list with the new entry in front; and the
  eviction check is made with that counter and that list. When the counter does not
  exceed \<^verbatim>\<open>maxSize\<close> this is the result. When it does and the least recently used node is
  an old node of another key, the removal of that key finds nothing in the new map, and
  the result is the same, with the counter above \<^verbatim>\<open>maxSize\<close>. When it does and the least
  recently used node bears the key \<open>k\<close> (an old node of \<open>k\<close>, or the new entry if the old
  list is empty), the entry just inserted is removed again: the map is empty and the
  counter is the old counter.
\<close>

theorem C10_destroy_frame:
  "destroy s =
     s\<lparr> cache := None, pruningIntervalId := None,
        intervals := (case pruningIntervalId s of
                        None \<Rightarrow> intervals s
                      | Some i \<Rightarrow> removeAll i (intervals s)) \<rparr> \<and>
   size_pc (destroy s) = size_pc s \<and>
   lruList (destroy s) = lruList s \<and>
   cache (lazyInit (destroy s)) = Some [] \<and>
   size_pc (lazyInit (destroy s)) = size_pc s \<and>
   lruContents (lazyInit (destroy s)) = lruContents s \<and>
   (k \<in> set objectPrototype \<longrightarrow>
      get k (Setter v) now (destroy s) = (Inl TypeError, lazyInit (destroy s))) \<and>
   (k \<notin> set objectPrototype \<longrightarrow>
      setterCalls (snd (get k (Setter (PromiseObj p)) now (destroy s))) = Suc (setterCalls s) \<and>
      ((case maxSize s of None \<Rightarrow> True | Some n \<Rightarrow> size_pc s + 1 \<le> n) \<longrightarrow>
         fst (get k (Setter (PromiseObj p)) now (destroy s)) = Inr p \<and>
         cacheEntries (snd (get k (Setter (PromiseObj p)) now (destroy s)))
           = [(k, newCacheEntry (nextIdent s) k p now)] \<and>
         size_pc (snd (get k (Setter (PromiseObj p)) now (destroy s))) = size_pc s + 1 \<and>
         lruContents (snd (get k (Setter (PromiseObj p)) now (destroy s)))
           = (if lruList s = None \<and> maxSize s = None then []
              else newCacheEntry (nextIdent s) k p now # lruContents s)) \<and>
      (maxSize s = Some m \<and> m < size_pc s + 1 \<and>
       entryKey (last (newCacheEntry (nextIdent s) k p now # lruContents s)) \<noteq> k \<and>
       entryKey (last (newCacheEntry (nextIdent s) k p now # lruContents s)) \<notin> set objectPrototype \<longrightarrow>
         fst (get k (Setter (PromiseObj p)) now (destroy s)) = Inr p \<and>
         cacheEntries (snd (get k (Setter (PromiseObj p)) now (destroy s)))
           = [(k, newCacheEntry (nextIdent s) k p now)] \<and>
         size_pc (snd (get k (Setter (PromiseObj p)) now (destroy s))) = size_pc s + 1 \<and>
         lruContents (snd (get k (Setter (PromiseObj p)) now (destroy s)))
           = newCacheEntry (nextIdent s) k p now # lruContents s) \<and>
      (maxSize s = Some m \<and> m < size_pc s + 1 \<and>
       entryKey (last (newCacheEntry (nextIdent s) k p now # lruContents s)) = k \<longrightarrow>
         fst (get k (Setter (PromiseObj p)) now (destroy s)) = Inr p \<and>
         cacheEntries (snd (get k (Setter (PromiseObj p)) now (destroy s))) = [] \<and>
         size_pc (snd (get k (Setter (PromiseObj p)) now (destroy s))) = size_pc s \<and>
         lruContents (snd (get k (Setter (PromiseObj p)) now (destroy s)))
           = (if size_pc s = 0 then []
              else unlink (newCacheEntry (nextIdent s) k p now) (lruContents s))))"
proof -
  let ?e = "newCacheEntry (nextIdent s) k p now"
  let ?I = "inserted k p now (lazyInit (destroy s))"
  let ?r = "get k (Setter (PromiseObj p)) now (destroy s)"
  have frame: "destroy s =
     s\<lparr> cache := None, pruningIntervalId := None,
        intervals := (case pruningIntervalId s of
                        None \<Rightarrow> intervals s
                      | Some i \<Rightarrow> removeAll i (intervals s)) \<rparr> \<and>
     size_pc (destroy s) = size_pc s \<and> lruList (destroy s) = lruList s"
    using destroy_eq[of s] by (simp add: destroy_fields)
  have init: "cache (lazyInit (destroy s)) = Some [] \<and>
     size_pc (lazyInit (destroy s)) = size_pc s \<and>
     lruContents (lazyInit (destroy s)) = lruContents s"
    by (simp add: lazyInit_fields lazyInit_obs destroy_fields destroy_obs)
  have inh: "get k (Setter v) now (destroy s) = (Inl TypeError, lazyInit (destroy s))"
    if "k \<in> set objectPrototype"
    using that by (simp add: get_inherited lookup_inherited destroy_obs)
  have calls: "setterCalls (snd ?r) = Suc (setterCalls s)" if "k \<notin> set objectPrototype"
    using get_miss_setterCalls[OF misses_destroy[OF that, of now s], of p]
    by (simp add: destroy_fields)
  have res: "fst ?r = Inr p \<and> cacheEntries (snd ?r) = [(k, ?e)] \<and>
      size_pc (snd ?r) = size_pc s + 1 \<and>
      lruContents (snd ?r) = (if lruList s = None \<and> maxSize s = None then [] else ?e # lruContents s)"
    if g: "?r = (Inr p, ?I\<lparr> rejectHandlers := rejectHandlers s @ [(p, k, ?e)] \<rparr>)"
    by (simp add: g cacheEntries_update lruContents_update inserted_after_destroy)
  have fits: "fst ?r = Inr p \<and> cacheEntries (snd ?r) = [(k, ?e)] \<and>
      size_pc (snd ?r) = size_pc s + 1 \<and>
      lruContents (snd ?r) = (if lruList s = None \<and> maxSize s = None then [] else ?e # lruContents s)"
    if "k \<notin> set objectPrototype" and "case maxSize s of None \<Rightarrow> True | Some n \<Rightarrow> size_pc s + 1 \<le> n"
    using get_after_destroy_fits[OF that] by (rule res)
  have other: "fst ?r = Inr p \<and> cacheEntries (snd ?r) = [(k, ?e)] \<and>
      size_pc (snd ?r) = size_pc s + 1 \<and> lruContents (snd ?r) = ?e # lruContents s"
    if "k \<notin> set objectPrototype" and "maxSize s = Some m" and "m < size_pc s + 1"
      and "entryKey (last (?e # lruContents s)) \<noteq> k"
      and "entryKey (last (?e # lruContents s)) \<notin> set objectPrototype"
    using res[OF get_after_destroy_other[OF that]] that(2) by simp
  have self: "fst ?r = Inr p \<and> cacheEntries (snd ?r) = [] \<and> size_pc (snd ?r) = size_pc s \<and>
      lruContents (snd ?r) = (if size_pc s = 0 then [] else unlink ?e (lruContents s))"
    if "k \<notin> set objectPrototype" and "maxSize s = Some m" and "m < size_pc s + 1"
      and "entryKey (last (?e # lruContents s)) = k"
    using get_after_destroy_self[OF that] by simp
  show ?thesis
    using frame init inh calls fits other self by blast
qed

text \<open>
  Witness for C10: a cache with the entries \<^verbatim>\<open>'a'\<close> and \<^verbatim>\<open>'b'\<close> is destroyed. With
  \<^verbatim>\<open>maxSize = 5\<close>, \<^verbatim>\<open>get('c')\<close> then inserts and the counter is 3. With \<^verbatim>\<open>maxSize = 2\<close>,
  \<^verbatim>\<open>get('c')\<close> inserts and evicts nothing (the key \<^verbatim>\<open>'a'\<close> of the old node is not in the
  new map), and \<^verbatim>\<open>get('a')\<close> inserts and at once removes its entry, led by the old node of
  \<^verbatim>\<open>'a'\<close>. \<^verbatim>\<open>get('toString')\<close> throws.
\<close>

theorem C10_destroy_frame_witness:
  "''c'' \<notin> set objectPrototype \<and> ''a'' \<notin> set objectPrototype \<and> ''toString'' \<in> set objectPrototype \<and>
   maxSize (getAll [(''a'', 11, 0), (''b'', 12, 1)] (newPromiseCache (Some 5) (Some 100) (Some 60000))) = Some 5 \<and>
   size_pc (getAll [(''a'', 11, 0), (''b'', 12, 1)] (newPromiseCache (Some 5) (Some 100) (Some 60000))) = 2 \<and>
   maxSize (getAll [(''a'', 11, 0), (''b'', 12, 1)] (newPromiseCache (Some 2) None None)) = Some 2 \<and>
   size_pc (getAll [(''a'', 11, 0), (''b'', 12, 1)] (newPromiseCache (Some 2) None None)) = 2 \<and>
   map entryKey (lruContents (getAll [(''a'', 11, 0), (''b'', 12, 1)] (newPromiseCache (Some 2) None None)))
     = [''b'', ''a''] \<and>
   cache (destroy (getAll [(''a'', 11, 0), (''b'', 12, 1)] (newPromiseCache (Some 5) (Some 100) (Some 60000)))) = None \<and>
   size_pc (destroy (getAll [(''a'', 11, 0), (''b'', 12, 1)] (newPromiseCache (Some 5) (Some 100) (Some 60000)))) = 2 \<and>
   cacheEntries (snd (get ''c'' (Setter (PromiseObj 13)) 2
      (destroy (getAll [(''a'', 11, 0), (''b'', 12, 1)] (newPromiseCache (Some 5) (Some 100) (Some 60000))))))
     = [(''c'', newCacheEntry 2 ''c'' 13 2)] \<and>
   size_pc (snd (get ''c'' (Setter (PromiseObj 13)) 2
      (destroy (getAll [(''a'', 11, 0), (''b'', 12, 1)] (newPromiseCache (Some 5) (Some 100) (Some 60000))))))
     = 3 \<and>
   lruContents (snd (get ''c'' (Setter (PromiseObj 13)) 2
      (destroy (getAll [(''a'', 11, 0), (''b'', 12, 1)] (newPromiseCache (Some 5) (Some 100) (Some 60000))))))
     = [newCacheEntry 2 ''c'' 13 2, newCacheEntry 1 ''b'' 12 1, newCacheEntry 0 ''a'' 11 0] \<and>
   cacheEntries (snd (get ''c'' (Setter (PromiseObj 13)) 2
      (destroy (getAll [(''a'', 11, 0), (''b'', 12, 1)] (newPromiseCache (Some 2) None None)))))
     = [(''c'', newCacheEntry 2 ''c'' 13 2)] \<and>
   size_pc (snd (get ''c'' (Setter (PromiseObj 13)) 2
      (destroy (getAll [(''a'', 11, 0), (''b'', 12, 1)] (newPromiseCache (Some 2) None None)))))
     = 3 \<and>
   cacheEntries (snd (get ''a'' (Setter (PromiseObj 13)) 2
      (destroy (getAll [(''a'', 11, 0), (''b'', 12, 1)] (newPromiseCache (Some 2) None None)))))
     = [] \<and>
   size_pc (snd (get ''a'' (Setter (PromiseObj 13)) 2
      (destroy (getAll [(''a'', 11, 0), (''b'', 12, 1)] (newPromiseCache (Some 2) None None)))))
     = 2 \<and>
   fst (get ''toString'' (Setter (PromiseObj 13)) 2
      (destroy (getAll [(''a'', 11, 0), (''b'', 12, 1)] (newPromiseCache (Some 2) None None))))
     = Inl TypeError"
proof -
  define s where "s = getAll [(''a'', 11, 0), (''b'', 12, 1)] (newPromiseCache (Some 5) (Some 100) (Some 60000))"
  define u where "u = getAll [(''a'', 11, 0), (''b'', 12, 1)] (newPromiseCache (Some 2) None None)"
  have c: "''c'' \<notin> set objectPrototype" "''a'' \<notin> set objectPrototype"
    "''toString'' \<in> set objectPrototype"
    by (simp_all add: objectPrototype_def)
  have s1: "maxSize s = Some 5" unfolding s_def by code_simp
  have s2: "size_pc s = 2" unfolding s_def by code_simp
  have s3: "lruList s = Some [newCacheEntry 1 ''b'' 12 1, newCacheEntry 0 ''a'' 11 0]"
    unfolding s_def by code_simp
  have s4: "nextIdent s = 2" unfolding s_def by code_simp
  have s5: "cache (destroy s) = None" unfolding s_def by code_simp
  have u1: "maxSize u = Some 2" unfolding u_def by code_simp
  have u2: "size_pc u = 2" unfolding u_def by code_simp
  have u3: "lruContents u = [newCacheEntry 1 ''b'' 12 1, newCacheEntry 0 ''a'' 11 0]"
    unfolding u_def by code_simp
  have u4: "nextIdent u = 2" unfolding u_def by code_simp
  note ts = C10_destroy_frame[where s=s and k="''c''" and p=13 and now=2, THEN conjunct2]
  note tc = C10_destroy_frame[where s=u and k="''c''" and p=13 and now=2 and m=2, THEN conjunct2]
  note ta = C10_destroy_frame[where s=u and k="''a''" and p=13 and now=2 and m=2, THEN conjunct2]
  note tt = C10_destroy_frame[where s=u and k="''toString''" and v="PromiseObj 13" and now=2,
      THEN conjunct2]
  have w1: "size_pc (destroy s) = 2" using ts s2 by simp
  have fit: "case maxSize s of None \<Rightarrow> True | Some n \<Rightarrow> size_pc s + 1 \<le> n"
    by (simp add: s1 s2)
  have w2: "cacheEntries (snd (get ''c'' (Setter (PromiseObj 13)) 2 (destroy s)))
        = [(''c'', newCacheEntry 2 ''c'' 13 2)] \<and>
      size_pc (snd (get ''c'' (Setter (PromiseObj 13)) 2 (destroy s))) = 3 \<and>
      lruContents (snd (get ''c'' (Setter (PromiseObj 13)) 2 (destroy s)))
        = [newCacheEntry 2 ''c'' 13 2, newCacheEntry 1 ''b'' 12 1, newCacheEntry 0 ''a'' 11 0]"
    using ts c(1) fit by (simp add: s2 s3 s4 lruContents_def[of s])
  have ov: "maxSize u = Some 2 \<and> 2 < size_pc u + 1" by (simp add: u1 u2)
  have lc: "entryKey (last (newCacheEntry (nextIdent u) ''c'' 13 2 # lruContents u)) \<noteq> ''c'' \<and>
      entryKey (last (newCacheEntry (nextIdent u) ''c'' 13 2 # lruContents u)) \<notin> set objectPrototype"
    by (simp add: u3 newCacheEntry_def objectPrototype_def)
  have la: "entryKey (last (newCacheEntry (nextIdent u) ''a'' 13 2 # lruContents u)) = ''a''"
    by (simp add: u3 newCacheEntry_def)
  have w3: "cacheEntries (snd (get ''c'' (Setter (PromiseObj 13)) 2 (destroy u)))
        = [(''c'', newCacheEntry 2 ''c'' 13 2)] \<and>
      size_pc (snd (get ''c'' (Setter (PromiseObj 13)) 2 (destroy u))) = 3"
    using tc c(1) ov lc by (simp add: u2 u4)
  have w4: "cacheEntries (snd (get ''a'' (Setter (PromiseObj 13)) 2 (destroy u))) = [] \<and>
      size_pc (snd (get ''a'' (Setter (PromiseObj 13)) 2 (destroy u))) = 2"
    using ta c(2) ov la by (simp add: u2)
  have w5: "fst (get ''toString'' (Setter (PromiseObj 13)) 2 (destroy u)) = Inl TypeError"
    using tt c(3) by simp
  have "''c'' \<notin> set objectPrototype \<and> ''a'' \<notin> set objectPrototype \<and>
    ''toString'' \<in> set objectPrototype \<and>
    maxSize s = Some 5 \<and> size_pc s = 2 \<and> maxSize u = Some 2 \<and> size_pc u = 2 \<and>
    map entryKey (lruContents u) = [''b'', ''a''] \<and>
    cache (destroy s) = None \<and> size_pc (destroy s) = 2 \<and>
    cacheEntries (snd (get ''c'' (Setter (PromiseObj 13)) 2 (destroy s)))
      = [(''c'', newCacheEntry 2 ''c'' 13 2)] \<and>
    size_pc (snd (get ''c'' (Setter (PromiseObj 13)) 2 (destroy s))) = 3 \<and>
    lruContents (snd (get ''c'' (Setter (PromiseObj 13)) 2 (destroy s)))
      = [newCacheEntry 2 ''c'' 13 2, newCacheEntry 1 ''b'' 12 1, newCacheEntry 0 ''a'' 11 0] \<and>
    cacheEntries (snd (get ''c'' (Setter (PromiseObj 13)) 2 (destroy u)))
      = [(''c'', newCacheEntry 2 ''c'' 13 2)] \<and>
    size_pc (snd (get ''c'' (Setter (PromiseObj 13)) 2 (destroy u))) = 3 \<and>
    cacheEntries (snd (get ''a'' (Setter (PromiseObj 13)) 2 (destroy u))) = [] \<and>
    size_pc (snd (get ''a'' (Setter (PromiseObj 13)) 2 (destroy u))) = 2 \<and>
    fst (get ''toString'' (Setter (PromiseObj 13)) 2 (destroy u)) = Inl TypeError"
    using c s1 s2 u1 u2 s5 w1 w2 w3 w4 w5 by (simp add: u3 newCacheEntry_def)
  then show ?thesis unfolding s_def u_def .
qed

subsection \<open>clear and destroy\<close>

text \<open>
  Claim C8, as amended. \<^verbatim>\<open>clear\<close> and \<^verbatim>\<open>destroy\<close> have no throwing path (they are total
  functions of the state) and are idempotent. After \<^verbatim>\<open>clear()\<close>, in any state,
  \<^verbatim>\<open>getSize()\<close> returns 0. After \<^verbatim>\<open>destroy()\<close>, \<^verbatim>\<open>getSize()\<close> returns the value the
  counter had before \<^verbatim>\<open>destroy()\<close>: 0 for a cache that was empty or cleared, and the old
  count for a cache that held entries.
\<close>

theorem C8_clear_destroy_getSize:
  "fst (getSize now (clear s)) = Inr 0 \<and>
   fst (getSize now (destroy s)) = Inr (size_pc s) \<and>
   clear (clear s) = clear s \<and>
   destroy (destroy s) = destroy s \<and>
   clear (destroy s) = clear s"
  by (simp add: getSize_def prune_def clear_def destroy_def stopPruningInterval_def
      split: option.splits)

text \<open>
  Claim C8 as stated fails: a cache that holds one entry reports size 1 after
  \<^verbatim>\<open>destroy()\<close>, not 0.
\<close>

theorem C8_destroy_getSize_counterexample:
  "fst (getSize 5 (destroy (snd (get ''a'' (Setter (PromiseObj 1)) 0
          (newPromiseCache None None None))))) = Inr 1 \<and>
   fst (getSize 5 (destroy (snd (get ''a'' (Setter (PromiseObj 1)) 0
          (newPromiseCache None None None))))) \<noteq> Inr 0"
  by code_simp

subsection \<open>Overwriting an expired entry\<close>

text \<open>
  Claim C3 fails on the code. With \<^verbatim>\<open>maxSize = 2\<close> and \<^verbatim>\<open>maxAge = 10\<close>, \<^verbatim>\<open>'a'\<close> is inserted
  at time 0 and, expired, inserted again at time 20. \<^verbatim>\<open>addEntry\<close> overwrites the slot of
  the map and pushes the new entry, but does not unlink the old one: the map has one key,
  the LRU list links two nodes (the old entry is still reachable, at the least recently
  used end), and the counter is 2. The stale node then misleads the eviction: inserting
  \<^verbatim>\<open>'b'\<close> at time 21 raises the counter to 3, and the eviction, led by the stale node to the
  key \<^verbatim>\<open>'a'\<close>, removes the new, unexpired entry of \<^verbatim>\<open>'a'\<close> and leaves the stale node
  linked.
\<close>

theorem C3_overwrite_leaves_stale_node:
  "cacheEntries (getAll [(''a'', 1, 0), (''a'', 2, 20)] (newPromiseCache (Some 2) (Some 10) None))
     = [(''a'', newCacheEntry 1 ''a'' 2 20)] \<and>
   lruContents (getAll [(''a'', 1, 0), (''a'', 2, 20)] (newPromiseCache (Some 2) (Some 10) None))
     = [newCacheEntry 1 ''a'' 2 20, newCacheEntry 0 ''a'' 1 0] \<and>
   linked (newCacheEntry 0 ''a'' 1 0)
     (lruContents (getAll [(''a'', 1, 0), (''a'', 2, 20)] (newPromiseCache (Some 2) (Some 10) None))) \<and>
   size_pc (getAll [(''a'', 1, 0), (''a'', 2, 20)] (newPromiseCache (Some 2) (Some 10) None)) = 2 \<and>
   cacheEntries (getAll [(''a'', 1, 0), (''a'', 2, 20), (''b'', 3, 21)] (newPromiseCache (Some 2) (Some 10) None))
     = [(''b'', newCacheEntry 2 ''b'' 3 21)] \<and>
   lruContents (getAll [(''a'', 1, 0), (''a'', 2, 20), (''b'', 3, 21)] (newPromiseCache (Some 2) (Some 10) None))
     = [newCacheEntry 2 ''b'' 3 21, newCacheEntry 0 ''a'' 1 0] \<and>
   has ''a'' 21 (getAll [(''a'', 1, 0), (''a'', 2, 20), (''b'', 3, 21)] (newPromiseCache (Some 2) (Some 10) None))
     = Inr False"
  by code_simp

subsection \<open>What holds in every state the methods can reach\<close>

lemma entriesKeyed_cong:
  "cacheEntries s' = cacheEntries s \<Longrightarrow> entriesKeyed s' = entriesKeyed s"
  by (simp add: entriesKeyed_def)

lemma entriesKeyed_clear: "entriesKeyed (clear s)"
  by (simp add: entriesKeyed_def cacheEntries_def clear_fields)

lemma entriesKeyed_get:
  assumes "entriesKeyed s"
  shows "entriesKeyed (snd (get k st now s))"
proof (cases st)
  case NotCallable
  then show ?thesis using assms by (simp add: get_def)
next
  case (Setter v)
  have lazy: "entriesKeyed (lazyInit s)"
    using assms by (simp add: entriesKeyed_def lazyInit_obs)
  show ?thesis
  proof (cases "misses k now s")
    case True
    show ?thesis
    proof (cases v)
      case NonThenable
      then show ?thesis
        using lazy Setter
        by (simp add: get_miss[OF True] addEntry_def entriesKeyed_def cacheEntries_update)
    next
      case (PromiseObj p)
      let ?I = "inserted k p now (lazyInit s)"
      have "entriesKeyed ?I" using assms by (rule entriesKeyed_inserted)
      then have "entriesKeyed (snd (evictLru ?I))"
        by (simp add: evictLru_def entriesKeyed_remove split: option.splits)
      then show ?thesis
        using Setter PromiseObj
        by (cases "evictLru ?I")
          (auto simp add: get_miss_any[OF True] entriesKeyed_def cacheEntries_update
            split: sum.splits)
    qed
  next
    case False
    show ?thesis
    proof (cases "lookup (cacheEntries s) k")
      case Absent
      then show ?thesis using False by (simp add: misses_def)
    next
      case Inherited
      then show ?thesis using lazy Setter by (simp add: get_inherited)
    next
      case (Own e)
      then have st: "map_of (cacheEntries s) k = Some e"
        by (simp add: lookup_def split: option.splits if_splits)
      have ne: "\<not> isExpired e (maxAge s) now" using False Own by (simp add: misses_def)
      have "cacheEntries (touchEntry e (lazyInit s)) = cacheEntries s"
        by (simp add: cacheEntries_def[of "touchEntry e (lazyInit s)"] touchEntry_fields lazyInit_fields)
      then show ?thesis
        using assms Setter by (simp add: get_hit[OF st ne] entriesKeyed_def)
    qed
  qed
qed

lemma removeIfEntry_cases:
  "removeIfEntry k e s = (Inr (), s) \<or> removeIfEntry k e s = remove k s"
  by (cases "cache s"; cases "lookup (cacheEntries s) k")
    (simp_all add: removeIfEntry_def cacheEntries_def)

lemma keys_removeIfEntry:
  assumes "entriesKeyed s" and "plainKeys s"
  shows "entriesKeyed (snd (removeIfEntry k e s)) \<and> plainKeys (snd (removeIfEntry k e s))"
  using removeIfEntry_cases[of k e s] assms entriesKeyed_remove[OF assms(1), of k]
    plainKeys_remove[OF assms(2), of k]
  by auto

lemma keys_runHandlers:
  assumes "entriesKeyed s" and "plainKeys s"
  shows "entriesKeyed (runHandlers hs s) \<and> plainKeys (runHandlers hs s)"
  using assms
proof (induction hs arbitrary: s)
  case Nil
  then show ?case by simp
next
  case (Cons h hs)
  obtain p k e where h: "h = (p, k, e)" by (cases h)
  show ?case
    using Cons.IH[of "snd (removeIfEntry k e s)"] keys_removeIfEntry[OF Cons.prems, of k e]
    by (simp add: h)
qed

lemma keys_reject:
  assumes "entriesKeyed s" and "plainKeys s"
  shows "entriesKeyed (reject p s) \<and> plainKeys (reject p s)"
proof -
  let ?s' = "s\<lparr> rejectHandlers := filter (\<lambda>h. fst h \<noteq> p) (rejectHandlers s) \<rparr>"
  have "entriesKeyed ?s'" "plainKeys ?s'"
    using assms by (simp_all add: entriesKeyed_def cacheEntries_update plainKeys_handlers)
  then show ?thesis unfolding reject_def by (rule keys_runHandlers)
qed

lemma keys_pruneLoop:
  assumes "entriesKeyed s" and "plainKeys s"
  shows "entriesKeyed (snd (pruneLoop rest a now s)) \<and> plainKeys (snd (pruneLoop rest a now s))"
  using assms
proof (induction rest arbitrary: s)
  case Nil
  then show ?case by simp
next
  case (Cons x rest)
  obtain k e where x: "x = (k, e)" by (cases x)
  show ?case
  proof (cases "isExpired e (Some a) now")
    case False
    then show ?thesis using Cons x by simp
  next
    case True
    have inv: "entriesKeyed (snd (removeEntry e s))" "plainKeys (snd (removeEntry e s))"
      using Cons.prems by (simp_all add: entriesKeyed_removeEntry plainKeys_removeEntry)
    show ?thesis
    proof (cases "removeEntry e s")
      case (Pair r s')
      then show ?thesis
        using True x inv Cons.IH[of s'] by (cases r) simp_all
    qed
  qed
qed

lemma keys_prune:
  assumes "entriesKeyed s" and "plainKeys s"
  shows "entriesKeyed (snd (prune now s)) \<and> plainKeys (snd (prune now s))"
  using assms keys_pruneLoop[OF assms]
  by (simp add: prune_def split: option.splits)

lemma snd_getSize: "snd (getSize now s) = snd (prune now s)"
  by (simp add: getSize_def split: prod.splits sum.splits)

lemma keys_destroy: "entriesKeyed (destroy s)" "plainKeys s \<Longrightarrow> plainKeys (destroy s)"
  by (simp_all add: entriesKeyed_def plainKeys_def destroy_obs)

lemma keys_exec:
  assumes "entriesKeyed s" and "plainKeys s"
  shows "entriesKeyed (exec c now s) \<and> plainKeys (exec c now s)"
proof (cases c)
  case (Get k st)
  then show ?thesis using entriesKeyed_get[OF assms(1)] plainKeys_get[OF assms(2)] by simp
next
  case (Has k)
  then show ?thesis using assms by simp
next
  case (Remove k)
  then show ?thesis using entriesKeyed_remove[OF assms(1)] plainKeys_remove[OF assms(2)] by simp
next
  case GetSize
  then show ?thesis using keys_prune[OF assms] by (simp add: snd_getSize)
next
  case Clear
  then show ?thesis by (simp add: entriesKeyed_clear plainKeys_clear)
next
  case Prune
  then show ?thesis using keys_prune[OF assms] by simp
next
  case Destroy
  then show ?thesis using keys_destroy assms(2) by simp
next
  case (Reject p)
  then show ?thesis using keys_reject[OF assms] by simp
qed

text \<open>
  Whatever the calls, their keys, their order and their times: in every state reached
  from a new cache the entries sit under their own unique keys, and no key of the map and
  no node of the LRU list bears the name of a member of \<^verbatim>\<open>Object.prototype\<close>.
\<close>

lemma keys_run:
  assumes "entriesKeyed s" and "plainKeys s"
  shows "entriesKeyed (run cs s) \<and> plainKeys (run cs s)"
  using assms
proof (induction cs arbitrary: s)
  case Nil
  then show ?case by simp
next
  case (Cons x cs)
  obtain c now where x: "x = (c, now)" by (cases x)
  show ?case
    using Cons.IH[of "exec c now s"] keys_exec[OF Cons.prems, of c now] x by simp
qed

lemma reachable_keys:
  "entriesKeyed (run cs (newPromiseCache msize mage pint)) \<and>
   plainKeys (run cs (newPromiseCache msize mage pint))"
proof (rule keys_run)
  show "entriesKeyed (newPromiseCache msize mage pint)"
    by (simp add: entriesKeyed_def cacheEntries_def newPromiseCache_def)
  show "plainKeys (newPromiseCache msize mage pint)" by (rule plainKeys_new)
qed

subsection \<open>The counter and the map\<close>

lemma set_alist_delete: "set (AList.delete k m) = {x \<in> set m. fst x \<noteq> k}"
  by (auto simp add: AList.delete_eq)

lemma length_alist_delete:
  assumes "distinct (map fst m)" and "k \<in> fst ` set m"
  shows "length (AList.delete k m) = length m - 1"
  using assms
proof (induction m)
  case Nil
  then show ?case by simp
next
  case (Cons x m)
  show ?case
  proof (cases "fst x = k")
    case True
    with Cons.prems have "k \<notin> fst ` set m" by auto
    then have "AList.delete k m = m" by simp
    with True show ?thesis by (cases x) simp
  next
    case False
    with Cons.prems have "k \<in> fst ` set m" by auto
    moreover from this have "m \<noteq> []" by auto
    ultimately show ?thesis using Cons False by (cases x) (auto simp add: Suc_diff_Suc neq_Nil_conv)
  qed
qed

lemma length_alist_update:
  "length (AList.update k v m) = (if k \<in> fst ` set m then length m else Suc (length m))"
  by (induction m) auto

lemma sizeMirrors_clear: "sizeMirrors (clear s)"
  by (simp add: sizeMirrors_def cacheEntries_def clear_fields)

lemma sizeMirrors_cong:
  "cacheEntries s' = cacheEntries s \<Longrightarrow> size_pc s' = size_pc s \<Longrightarrow> sizeMirrors s' = sizeMirrors s"
  by (simp add: sizeMirrors_def)

text \<open>Removal of an entry that sits in the map.\<close>

lemma removeEntry_present:
  assumes "(k, e) \<in> set (cacheEntries s)"
  shows "removeEntry e s =
     (Inr (), if size_pc s = 1 then clear s
              else s\<lparr> size_pc := size_pc s - 1,
                      lruList := map_option (unlink e) (lruList s),
                      cache := Some (AList.delete (entryKey e) (cacheEntries s)) \<rparr>)"
proof -
  from assms obtain m where "cache s = Some m"
    by (cases "cache s") (auto simp add: cacheEntries_def)
  then show ?thesis by (simp add: removeEntry_eq cacheEntries_def)
qed

lemma invariant_removeEntry:
  assumes keyed: "entriesKeyed s" and mirr: "sizeMirrors s" and mem: "(k, e) \<in> set (cacheEntries s)"
  shows "entriesKeyed (snd (removeEntry e s)) \<and> sizeMirrors (snd (removeEntry e s))"
proof (cases "size_pc s = 1")
  case True
  then show ?thesis
    by (simp add: removeEntry_present[OF mem] entriesKeyed_clear sizeMirrors_clear)
next
  case False
  have ek: "entryKey e = k"
    using keyed mem by (auto simp add: entriesKeyed_def list_all_iff)
  have d: "distinct (map fst (cacheEntries s))" using keyed by (simp add: entriesKeyed_def)
  have kin: "k \<in> fst ` set (cacheEntries s)" using mem by force
  have len: "length (AList.delete k (cacheEntries s)) = length (cacheEntries s) - 1"
    using d kin by (rule length_alist_delete)
  have pos: "length (cacheEntries s) \<ge> 1" using mem by (cases "cacheEntries s") auto
  let ?s' = "s\<lparr> size_pc := size_pc s - 1,
                lruList := map_option (unlink e) (lruList s),
                cache := Some (AList.delete (entryKey e) (cacheEntries s)) \<rparr>"
  have c: "cacheEntries ?s' = AList.delete k (cacheEntries s)"
    by (simp add: cacheEntries_update ek)
  have "entriesKeyed ?s'"
    using keyed unfolding entriesKeyed_def c by (simp add: distinct_delete list_all_delete)
  moreover have "sizeMirrors ?s'"
    using mirr pos unfolding sizeMirrors_def c len by simp
  ultimately show ?thesis using False by (simp add: removeEntry_present[OF mem])
qed

lemma sizeMirrors_covers: "sizeMirrors s \<Longrightarrow> sizeCovers s"
  by (simp add: sizeMirrors_def sizeCovers_def)

lemma sizeCovers_clear: "sizeCovers (clear s)"
  by (simp add: sizeCovers_def cacheEntries_def clear_fields)

lemma covers_removeEntry:
  assumes keyed: "entriesKeyed s" and cov: "sizeCovers s" and mem: "(k, e) \<in> set (cacheEntries s)"
  shows "entriesKeyed (snd (removeEntry e s)) \<and> sizeCovers (snd (removeEntry e s))"
proof (cases "size_pc s = 1")
  case True
  then show ?thesis
    by (simp add: removeEntry_present[OF mem] entriesKeyed_clear sizeCovers_clear)
next
  case False
  have ek: "entryKey e = k"
    using keyed mem by (auto simp add: entriesKeyed_def list_all_iff)
  have d: "distinct (map fst (cacheEntries s))" using keyed by (simp add: entriesKeyed_def)
  have kin: "k \<in> fst ` set (cacheEntries s)" using mem by force
  have len: "length (AList.delete k (cacheEntries s)) = length (cacheEntries s) - 1"
    using d kin by (rule length_alist_delete)
  have pos: "length (cacheEntries s) \<ge> 1" using mem by (cases "cacheEntries s") auto
  let ?s' = "s\<lparr> size_pc := size_pc s - 1,
                lruList := map_option (unlink e) (lruList s),
                cache := Some (AList.delete (entryKey e) (cacheEntries s)) \<rparr>"
  have c: "cacheEntries ?s' = AList.delete k (cacheEntries s)"
    by (simp add: cacheEntries_update ek)
  have "entriesKeyed ?s'"
    using keyed unfolding entriesKeyed_def c by (simp add: distinct_delete list_all_delete)
  moreover have "sizeCovers ?s'"
    using cov pos unfolding sizeCovers_def c len by simp
  ultimately show ?thesis using False by (simp add: removeEntry_present[OF mem])
qed

lemma remove_as_removeEntry:
  assumes "lookup (cacheEntries s) k \<noteq> Inherited"
  shows "remove k s = (case map_of (cacheEntries s) k of None \<Rightarrow> (Inr (), s) | Some e \<Rightarrow> removeEntry e s)"
proof (cases "cache s")
  case None
  then show ?thesis by (simp add: remove_def cacheEntries_def)
next
  case (Some m)
  then show ?thesis
    using assms
    by (cases "map_of m k") (simp_all add: remove_def cacheEntries_def lookup_def split: if_splits)
qed

lemma remove_stored:
  assumes "map_of (cacheEntries s) k = Some e"
  shows "remove k s = removeEntry e s"
proof -
  have "lookup (cacheEntries s) k \<noteq> Inherited" using assms by (simp add: lookup_inherited)
  then show ?thesis using assms by (simp add: remove_as_removeEntry)
qed


lemma removeIfEntry_stored:
  "removeIfEntry k e s = (Inr (), s) \<or>
   (\<exists>e'. map_of (cacheEntries s) k = Some e' \<and> removeIfEntry k e s = removeEntry e' s)"
proof (cases "map_of (cacheEntries s) k")
  case None
  then show ?thesis by (simp add: removeIfEntry_none)
next
  case (Some e')
  show ?thesis
  proof (cases "ident e' = ident e")
    case True
    with Some show ?thesis by (simp add: removeIfEntry_same remove_stored)
  next
    case False
    with Some show ?thesis by (simp add: removeIfEntry_other)
  qed
qed




subsection \<open>The loop of prune\<close>

lemma clear_after_removal:
  "clear (s\<lparr> size_pc := n, lruList := l, cache := c \<rparr>) = clear s"
  by (simp add: clear_def stopPruningInterval_def split: option.splits)

lemma alist_delete_as_filter:
  assumes "distinct (map fst m)" and "(k, e) \<in> set m"
  shows "AList.delete k m = filter (\<lambda>x. x \<noteq> (k, e)) m"
proof -
  have "\<And>x. x \<in> set m \<Longrightarrow> (fst x \<noteq> k) = (x \<noteq> (k, e))"
    using assms by (auto dest: eq_key_imp_eq_value)
  then show ?thesis
    unfolding AList.delete_eq by (intro filter_cong) (auto simp add: case_prod_unfold)
qed

text \<open>One step of the loop, on an expired entry that is not the last one.\<close>

lemma pruneLoop_invariant:
  assumes "entriesKeyed s" and "sizeMirrors s"
    and "set rest \<subseteq> set (cacheEntries s)" and "distinct (map fst rest)"
  shows "entriesKeyed (snd (pruneLoop rest a now s)) \<and> sizeMirrors (snd (pruneLoop rest a now s))"
  using assms
proof (induction rest arbitrary: s)
  case Nil
  then show ?case by simp
next
  case (Cons x rest)
  obtain k e where x: "x = (k, e)" by (cases x)
  have mem: "(k, e) \<in> set (cacheEntries s)" using Cons.prems(3) x by simp
  show ?case
  proof (cases "isExpired e (Some a) now")
    case False
    then show ?thesis using Cons x by simp
  next
    case True
    show ?thesis
    proof (cases "size_pc s = 1")
      case one: True
      then have "length (cacheEntries s) = 1" using Cons.prems(2) by (simp add: sizeMirrors_def)
      with mem have m: "cacheEntries s = [(k, e)]" by (cases "cacheEntries s") auto
      have "rest = []"
      proof (cases rest)
        case Nil
        then show ?thesis .
      next
        case (Cons y ys)
        with Cons.prems(3) m have "y = (k, e)" by simp
        with Cons.prems(4) x Cons show ?thesis by simp
      qed
      then show ?thesis
        using True one x by (simp add: removeEntry_present[OF mem] entriesKeyed_clear sizeMirrors_clear)
    next
      case more: False
      let ?s1 = "s\<lparr> size_pc := size_pc s - 1,
                    lruList := map_option (unlink e) (lruList s),
                    cache := Some (AList.delete (entryKey e) (cacheEntries s)) \<rparr>"
      have r: "removeEntry e s = (Inr (), ?s1)"
        using more by (simp add: removeEntry_present[OF mem])
      have inv1: "entriesKeyed ?s1 \<and> sizeMirrors ?s1"
        using invariant_removeEntry[OF Cons.prems(1,2) mem] r by simp
      have ek: "entryKey e = k"
        using Cons.prems(1) mem by (auto simp add: entriesKeyed_def list_all_iff)
      have "set rest \<subseteq> set (cacheEntries ?s1)"
        using Cons.prems(3,4) x by (auto simp add: cacheEntries_update set_alist_delete ek)
      moreover have "distinct (map fst rest)" using Cons.prems(4) by simp
      ultimately show ?thesis
        using Cons.IH[of ?s1] inv1 True x r by simp
    qed
  qed
qed

text \<open>
  The loop in closed form, for a counter that is at least the number of keys: the expired
  entries of the snapshot go; the cache is cleared when the counter says that the last
  entry went.
\<close>

lemma pruneLoop_closed:
  assumes "entriesKeyed s" and "sizeCovers s"
    and "set rest \<subseteq> set (cacheEntries s)" and "distinct (map fst rest)"
  shows "pruneLoop rest a now s =
     (Inr (),
      if filter (\<lambda>x. isExpired (snd x) (Some a) now) rest = [] then s
      else if int (length (filter (\<lambda>x. isExpired (snd x) (Some a) now) rest)) = size_pc s
      then clear s
      else s\<lparr> size_pc := size_pc s - int (length (filter (\<lambda>x. isExpired (snd x) (Some a) now) rest)),
              lruList := map_option
                (filter (\<lambda>y. ident y \<notin> ident ` snd ` set (filter (\<lambda>x. isExpired (snd x) (Some a) now) rest)))
                (lruList s),
              cache := Some (filter (\<lambda>y. y \<notin> set (filter (\<lambda>x. isExpired (snd x) (Some a) now) rest))
                               (cacheEntries s)) \<rparr>)"
  using assms
proof (induction rest arbitrary: s)
  case Nil
  then show ?case by simp
next
  case (Cons x rest)
  obtain k e where x: "x = (k, e)" by (cases x)
  have mem: "(k, e) \<in> set (cacheEntries s)" using Cons.prems(3) x by simp
  let ?X = "filter (\<lambda>x. isExpired (snd x) (Some a) now) rest"
  show ?case
  proof (cases "isExpired e (Some a) now")
    case False
    then show ?thesis using Cons x by simp
  next
    case True
    have len: "int (length (cacheEntries s)) \<le> size_pc s"
      using Cons.prems(2) by (simp add: sizeCovers_def)
    show ?thesis
    proof (cases "size_pc s = 1")
      case one: True
      then have "length (cacheEntries s) \<le> 1" using len by simp
      with mem have m: "cacheEntries s = [(k, e)]" by (cases "cacheEntries s") auto
      have "rest = []"
      proof (cases rest)
        case Nil
        then show ?thesis .
      next
        case (Cons y ys)
        with Cons.prems(3) m have "y = (k, e)" by simp
        with Cons.prems(4) x Cons show ?thesis by simp
      qed
      then show ?thesis
        using True one x by (simp add: removeEntry_present[OF mem])
    next
      case more: False
      let ?s1 = "s\<lparr> size_pc := size_pc s - 1,
                    lruList := map_option (unlink e) (lruList s),
                    cache := Some (AList.delete (entryKey e) (cacheEntries s)) \<rparr>"
      have r: "removeEntry e s = (Inr (), ?s1)"
        using more by (simp add: removeEntry_present[OF mem])
      have inv1: "entriesKeyed ?s1" "sizeCovers ?s1"
        using covers_removeEntry[OF Cons.prems(1,2) mem] r by simp_all
      have ek: "entryKey e = k"
        using Cons.prems(1) mem by (auto simp add: entriesKeyed_def list_all_iff)
      have d: "distinct (map fst (cacheEntries s))"
        using Cons.prems(1) by (simp add: entriesKeyed_def)
      have del: "AList.delete k (cacheEntries s) = filter (\<lambda>x. x \<noteq> (k, e)) (cacheEntries s)"
        using d mem by (rule alist_delete_as_filter)
      have c1: "cacheEntries ?s1 = filter (\<lambda>x. x \<noteq> (k, e)) (cacheEntries s)"
        by (simp add: cacheEntries_update ek del)
      have "(k, e) \<notin> set rest"
        using Cons.prems(4) x by (auto simp add: image_iff)
      then have sub1: "set rest \<subseteq> set (cacheEntries ?s1)"
        using Cons.prems(3) unfolding c1 by auto
      have d1: "distinct (map fst rest)" using Cons.prems(4) by simp
      have IH: "pruneLoop rest a now ?s1 =
         (Inr (),
          if ?X = [] then ?s1
          else if int (length ?X) = size_pc ?s1 then clear ?s1
          else ?s1\<lparr> size_pc := size_pc ?s1 - int (length ?X),
                lruList := map_option (filter (\<lambda>y. ident y \<notin> ident ` snd ` set ?X)) (lruList ?s1),
                cache := Some (filter (\<lambda>y. y \<notin> set ?X) (cacheEntries ?s1)) \<rparr>)"
        using inv1 sub1 d1 by (rule Cons.IH)
      have step: "pruneLoop (x # rest) a now s = pruneLoop rest a now ?s1"
        using True x r by simp
      have X: "filter (\<lambda>x. isExpired (snd x) (Some a) now) (x # rest) = (k, e) # ?X"
        using True x by simp
      have s1sz: "size_pc ?s1 = size_pc s - 1" by simp
      have lru: "map_option (filter (\<lambda>y. ident y \<notin> ident ` snd ` set ?X)) (lruList ?s1)
                 = map_option (filter (\<lambda>y. ident y \<notin> ident ` snd ` set ((k, e) # ?X))) (lruList s)"
        by (cases "lruList s") (auto simp add: unlink_def intro: filter_cong)
      have cac: "filter (\<lambda>y. y \<notin> set ?X) (cacheEntries ?s1)
                 = filter (\<lambda>y. y \<notin> set ((k, e) # ?X)) (cacheEntries s)"
        unfolding c1 by (auto intro: filter_cong)
      show ?thesis
      proof (cases "?X = []")
        case True
        have "unlink e = filter (\<lambda>y. ident y \<noteq> ident e)"
          by (rule ext) (simp add: unlink_def)
        then have "?s1 = s\<lparr> size_pc := size_pc s - 1,
                lruList := map_option (filter (\<lambda>y. ident y \<notin> ident ` snd ` set [(k, e)])) (lruList s),
                cache := Some (filter (\<lambda>y. y \<notin> set [(k, e)]) (cacheEntries s)) \<rparr>"
          by (simp add: ek del)
        then show ?thesis
          unfolding step IH X using True more by simp
      next
        case False
        show ?thesis
        proof (cases "int (length ?X) = size_pc ?s1")
          case all: True
          then have "int (length ((k, e) # ?X)) = size_pc s" by simp
          then show ?thesis
            unfolding step IH X using False all by (simp add: clear_after_removal)
        next
          case some: False
          then have ne: "int (length ((k, e) # ?X)) \<noteq> size_pc s" by simp
          have "?s1\<lparr> size_pc := size_pc ?s1 - int (length ?X),
                lruList := map_option (filter (\<lambda>y. ident y \<notin> ident ` snd ` set ?X)) (lruList ?s1),
                cache := Some (filter (\<lambda>y. y \<notin> set ?X) (cacheEntries ?s1)) \<rparr>
              = s\<lparr> size_pc := size_pc s - int (length ((k, e) # ?X)),
                lruList := map_option (filter (\<lambda>y. ident y \<notin> ident ` snd ` set ((k, e) # ?X))) (lruList s),
                cache := Some (filter (\<lambda>y. y \<notin> set ((k, e) # ?X)) (cacheEntries s)) \<rparr>"
            unfolding lru cac by simp
          then show ?thesis
            unfolding step IH X using False some ne by simp
        qed
      qed
    qed
  qed
qed

subsection \<open>Every operation but an overwriting get and destroy keeps the counter exact\<close>

lemma invariant_prune:
  assumes "entriesKeyed s" and "sizeMirrors s"
  shows "entriesKeyed (snd (prune now s)) \<and> sizeMirrors (snd (prune now s))"
proof (cases "cache s")
  case None
  then show ?thesis using assms by (simp add: prune_def)
next
  case (Some m)
  then have m: "cacheEntries s = m" by (simp add: cacheEntries_def)
  show ?thesis
  proof (cases "maxAge s")
    case None
    then show ?thesis using assms Some by (simp add: prune_def)
  next
    case (Some a)
    have "distinct (map fst m)" using assms(1) m by (simp add: entriesKeyed_def)
    with assms m have "entriesKeyed (snd (pruneLoop m a now s)) \<and> sizeMirrors (snd (pruneLoop m a now s))"
      by (intro pruneLoop_invariant) simp_all
    then show ?thesis using Some \<open>cache s = Some m\<close> by (simp add: prune_def)
  qed
qed





lemma invariant_new:
  "entriesKeyed (newPromiseCache msize mage pint) \<and> sizeMirrors (newPromiseCache msize mage pint)"
  by (simp add: entriesKeyed_def sizeMirrors_def cacheEntries_def newPromiseCache_def)




subsection \<open>The contract of prune\<close>

lemma isExpired_None: "\<not> isExpired e None now"
  by (simp add: isExpired_def)

lemma prune_noop:
  assumes "cache s = None \<or> maxAge s = None"
  shows "prune now s = (Inr (), s)"
  using assms by (auto simp add: prune_def split: option.splits)

lemma prune_closed:
  assumes "entriesKeyed s" and "sizeCovers s" and "cache s = Some m" and "maxAge s = Some a"
  shows "prune now s =
     (Inr (),
      if filter (\<lambda>x. isExpired (snd x) (Some a) now) m = [] then s
      else if int (length (filter (\<lambda>x. isExpired (snd x) (Some a) now) m)) = size_pc s then clear s
      else s\<lparr> size_pc := size_pc s - int (length (filter (\<lambda>x. isExpired (snd x) (Some a) now) m)),
              lruList := map_option
                (filter (\<lambda>y. ident y \<notin> ident ` snd ` set (filter (\<lambda>x. isExpired (snd x) (Some a) now) m)))
                (lruList s),
              cache := Some (filter (\<lambda>y. y \<notin> set (filter (\<lambda>x. isExpired (snd x) (Some a) now) m)) m) \<rparr>)"
proof -
  have m: "cacheEntries s = m" using assms(3) by (simp add: cacheEntries_def)
  have "distinct (map fst m)" using assms(1) m by (simp add: entriesKeyed_def)
  then have "pruneLoop m a now s = (Inr (),
      if filter (\<lambda>x. isExpired (snd x) (Some a) now) m = [] then s
      else if int (length (filter (\<lambda>x. isExpired (snd x) (Some a) now) m)) = size_pc s then clear s
      else s\<lparr> size_pc := size_pc s - int (length (filter (\<lambda>x. isExpired (snd x) (Some a) now) m)),
              lruList := map_option
                (filter (\<lambda>y. ident y \<notin> ident ` snd ` set (filter (\<lambda>x. isExpired (snd x) (Some a) now) m)))
                (lruList s),
              cache := Some (filter (\<lambda>y. y \<notin> set (filter (\<lambda>x. isExpired (snd x) (Some a) now) m))
                               (cacheEntries s)) \<rparr>)"
    using assms(1,2) m by (intro pruneLoop_closed) simp_all
  then show ?thesis using assms(3,4) m by (simp add: prune_def)
qed

lemma filter_all_length:
  assumes "length (filter P xs) = length xs"
  shows "filter (\<lambda>x. \<not> P x) xs = []"
proof -
  have "length (filter P xs) + length (filter (\<lambda>x. \<not> P x) xs) = length xs"
    by (rule sum_length_filter_compl)
  with assms show ?thesis by simp
qed

lemma filter_mem_imp:
  "filter (\<lambda>y. y \<in> set xs \<longrightarrow> Q y) xs = filter Q xs"
  by (rule filter_cong) auto

text \<open>When the counter equals the number of expired entries, every entry is expired.\<close>

lemma all_expired:
  assumes "sizeCovers s" and "cacheEntries s = m"
    and "int (length (filter P m)) = size_pc s"
  shows "length (filter P m) = length m"
proof -
  have "length (filter P m) \<le> length m" by (rule length_filter_le)
  moreover have "int (length m) \<le> size_pc s" using assms(1,2) by (simp add: sizeCovers_def)
  ultimately show ?thesis using assms(3) by linarith
qed

lemma prune_entries:
  assumes "entriesKeyed s" and "sizeCovers s"
  shows "fst (prune now s) = Inr () \<and>
         cacheEntries (snd (prune now s))
           = filter (\<lambda>x. \<not> isExpired (snd x) (maxAge s) now) (cacheEntries s)"
proof (cases "cache s = None \<or> maxAge s = None")
  case True
  then show ?thesis
    by (auto simp add: prune_noop isExpired_None cacheEntries_def)
next
  case False
  then obtain m a where m: "cache s = Some m" and a: "maxAge s = Some a" by auto
  have c: "cacheEntries s = m" using m by (simp add: cacheEntries_def)
  let ?X = "filter (\<lambda>x. isExpired (snd x) (Some a) now) m"
  show ?thesis
  proof (cases "?X = []")
    case True
    then have "filter (\<lambda>x. \<not> isExpired (snd x) (Some a) now) m = m"
      by (simp add: filter_empty_conv filter_id_conv)
    then show ?thesis using True a c by (simp add: prune_closed[OF assms m a])
  next
    case ne: False
    show ?thesis
    proof (cases "int (length ?X) = size_pc s")
      case True
      have "length ?X = length m" using assms(2) c True by (rule all_expired)
      then have "filter (\<lambda>x. \<not> isExpired (snd x) (Some a) now) m = []"
        by (rule filter_all_length)
      then show ?thesis
        using True ne a c by (simp add: prune_closed[OF assms m a] cacheEntries_def clear_fields)
    next
      case False
      then show ?thesis
        using ne a c
        by (simp add: prune_closed[OF assms m a] cacheEntries_update filter_mem_imp)
    qed
  qed
qed

lemma invariant_filter:
  assumes "entriesKeyed s" and "cacheEntries s' = filter P (cacheEntries s)"
  shows "entriesKeyed s'"
  using assms by (simp add: entriesKeyed_def distinct_map_filter list_all_iff)

lemma prune_keyed:
  assumes "entriesKeyed s" and "sizeCovers s"
  shows "entriesKeyed (snd (prune now s))"
  using assms(1) prune_entries[OF assms, of now, THEN conjunct2] by (rule invariant_filter)

lemma prune_covers:
  assumes "entriesKeyed s" and "sizeCovers s"
  shows "sizeCovers (snd (prune now s))"
proof (cases "cache s = None \<or> maxAge s = None")
  case True
  then show ?thesis using assms(2) by (simp add: prune_noop)
next
  case False
  then obtain m a where m: "cache s = Some m" and a: "maxAge s = Some a" by auto
  have c: "cacheEntries s = m" using m by (simp add: cacheEntries_def)
  let ?X = "filter (\<lambda>x. isExpired (snd x) (Some a) now) m"
  have sum: "length ?X + length (filter (\<lambda>x. \<not> isExpired (snd x) (Some a) now) m) = length m"
    by (rule sum_length_filter_compl)
  have le: "int (length m) \<le> size_pc s" using assms(2) c by (simp add: sizeCovers_def)
  have e: "cacheEntries (snd (prune now s)) = filter (\<lambda>x. \<not> isExpired (snd x) (Some a) now) m"
    using prune_entries[OF assms, of now] a c by simp
  show ?thesis
  proof (cases "?X = []")
    case True
    then show ?thesis using assms(2) by (simp add: prune_closed[OF assms m a])
  next
    case ne: False
    show ?thesis
    proof (cases "int (length ?X) = size_pc s")
      case True
      then show ?thesis using ne by (simp add: prune_closed[OF assms m a] sizeCovers_clear)
    next
      case False
      have "size_pc (snd (prune now s)) = size_pc s - int (length ?X)"
        using ne False by (simp add: prune_closed[OF assms m a])
      then show ?thesis unfolding sizeCovers_def e using sum le by simp
    qed
  qed
qed

text \<open>The timer: a prune that removes the last entry clears the cache; any other leaves the timer alone.\<close>

lemma prune_timer:
  assumes "entriesKeyed s" and "sizeMirrors s"
  shows "(cacheEntries s \<noteq> [] \<and> cacheEntries (snd (prune now s)) = [] \<longrightarrow>
            snd (prune now s) = clear s) \<and>
         (cacheEntries (snd (prune now s)) \<noteq> [] \<longrightarrow>
            pruningIntervalId (snd (prune now s)) = pruningIntervalId s \<and>
            intervals (snd (prune now s)) = intervals s)"
proof (cases "cache s = None \<or> maxAge s = None")
  case True
  have "cacheEntries s = filter (\<lambda>x. \<not> isExpired (snd x) (maxAge s) now) (cacheEntries s)"
    using True by (auto simp add: isExpired_None cacheEntries_def)
  then show ?thesis using True by (auto simp add: prune_noop)
next
  case False
  then obtain m a where m: "cache s = Some m" and a: "maxAge s = Some a" by auto
  have c: "cacheEntries s = m" using m by (simp add: cacheEntries_def)
  have cov: "sizeCovers s" using assms(2) by (rule sizeMirrors_covers)
  have sz: "size_pc s = int (length m)" using assms(2) c by (simp add: sizeMirrors_def)
  let ?X = "filter (\<lambda>x. isExpired (snd x) (Some a) now) m"
  have sum: "length ?X + length (filter (\<lambda>x. \<not> isExpired (snd x) (Some a) now) m) = length m"
    by (rule sum_length_filter_compl)
  have e: "cacheEntries (snd (prune now s)) = filter (\<lambda>x. \<not> isExpired (snd x) (Some a) now) m"
    using prune_entries[OF assms(1) cov, of now] a c by simp
  show ?thesis
  proof (cases "?X = []")
    case True
    then show ?thesis by (simp add: prune_closed[OF assms(1) cov m a] c)
  next
    case ne: False
    show ?thesis
    proof (cases "int (length ?X) = size_pc s")
      case True
      then show ?thesis
        using ne by (simp add: prune_closed[OF assms(1) cov m a] cacheEntries_def clear_fields)
    next
      case False
      then have "filter (\<lambda>x. \<not> isExpired (snd x) (Some a) now) m \<noteq> []"
        using sum sz by auto
      then have "cacheEntries (snd (prune now s)) \<noteq> []" using e by simp
      then show ?thesis
        using ne False by (simp add: prune_closed[OF assms(1) cov m a])
    qed
  qed
qed

lemma lruMirrors_clear: "lruMirrors (clear s)"
  by (simp add: lruMirrors_def clear_fields)

lemma lruMirrors_Some:
  assumes "lruMirrors s" and "lruList s = Some l"
  shows "distinct (map ident l)" and "set l = snd ` set (cacheEntries s)"
  using assms by (simp_all add: lruMirrors_def)

lemma prune_lru:
  assumes keyed: "entriesKeyed s" and mirr: "sizeMirrors s" and lru: "lruMirrors s"
  shows "lruContents (snd (prune now s))
           = filter (\<lambda>e. \<not> isExpired e (maxAge s) now) (lruContents s) \<and>
         lruMirrors (snd (prune now s))"
proof (cases "lruList s")
  case None
  have cov: "sizeCovers s" using mirr by (rule sizeMirrors_covers)
  have "lruList (snd (prune now s)) = None"
  proof (cases "cache s = None \<or> maxAge s = None")
    case True
    then show ?thesis using None by (simp add: prune_noop)
  next
    case False
    then obtain m a where m: "cache s = Some m" and a: "maxAge s = Some a" by auto
    show ?thesis using None by (simp add: prune_closed[OF keyed cov m a] clear_fields)
  qed
  then show ?thesis using None by (simp add: lruContents_def lruMirrors_def)
next
  case (Some l)
  have cov: "sizeCovers s" using mirr by (rule sizeMirrors_covers)
  note l = lruMirrors_Some[OF lru Some]
  have lc: "lruContents s = l" using Some by (simp add: lruContents_def)
  show ?thesis
  proof (cases "cache s = None \<or> maxAge s = None")
    case True
    have "filter (\<lambda>e. \<not> isExpired e (maxAge s) now) l = l"
    proof (cases "maxAge s")
      case None
      then show ?thesis by (simp add: isExpired_None)
    next
      case (Some a)
      with True have "cacheEntries s = []" by (simp add: cacheEntries_def)
      with l(2) show ?thesis by simp
    qed
    then show ?thesis using True lru lc by (simp add: prune_noop)
  next
    case False
    then obtain m a where m: "cache s = Some m" and a: "maxAge s = Some a" by auto
    have c: "cacheEntries s = m" using m by (simp add: cacheEntries_def)
    let ?X = "filter (\<lambda>x. isExpired (snd x) (Some a) now) m"
    have mem: "\<And>y. y \<in> set l \<Longrightarrow> (y \<in> snd ` set ?X) = isExpired y (Some a) now"
      using l(2) c by force
    show ?thesis
    proof (cases "?X = []")
      case True
      have "\<And>y. y \<in> set l \<Longrightarrow> \<not> isExpired y (Some a) now"
        using mem True by (metis empty_iff image_empty list.set(1))
      then have "filter (\<lambda>e. \<not> isExpired e (Some a) now) l = l"
        by (simp add: filter_id_conv)
      then show ?thesis using True lru lc a by (simp add: prune_closed[OF keyed cov m a])
    next
      case ne: False
      show ?thesis
      proof (cases "int (length ?X) = size_pc s")
        case True
        have "length ?X = length m" using cov c True by (rule all_expired)
        then have "filter (\<lambda>x. \<not> isExpired (snd x) (Some a) now) m = []"
          by (rule filter_all_length)
        then have "\<And>x. x \<in> set m \<Longrightarrow> isExpired (snd x) (Some a) now"
          by (simp add: filter_empty_conv)
        then have "\<And>y. y \<in> set l \<Longrightarrow> isExpired y (Some a) now"
          using l(2) c by auto
        then have "filter (\<lambda>e. \<not> isExpired e (Some a) now) l = []"
          by (simp add: filter_empty_conv)
        then show ?thesis
          using True ne lc a
          by (simp add: prune_closed[OF keyed cov m a] lruContents_def clear_fields lruMirrors_clear)
      next
        case False
        let ?s' = "s\<lparr> size_pc := size_pc s - int (length ?X),
              lruList := map_option (filter (\<lambda>y. ident y \<notin> ident ` snd ` set ?X)) (lruList s),
              cache := Some (filter (\<lambda>y. y \<notin> set ?X) m) \<rparr>"
        have p: "snd (prune now s) = ?s'"
          using ne False by (simp add: prune_closed[OF keyed cov m a])
        have inj: "inj_on ident (set l)" using l(1) by (simp add: distinct_map)
        have sub: "snd ` set ?X \<subseteq> set l" using l(2) c by auto
        have idm: "\<And>y. y \<in> set l \<Longrightarrow> (ident y \<in> ident ` snd ` set ?X) = (y \<in> snd ` set ?X)"
          using inj sub by (meson inj_on_image_mem_iff)
        have fl: "filter (\<lambda>y. ident y \<notin> ident ` snd ` set ?X) l
                    = filter (\<lambda>e. \<not> isExpired e (Some a) now) l"
        proof (rule filter_cong)
          fix y
          assume "y \<in> set l"
          then show "(ident y \<notin> ident ` snd ` set ?X) = (\<not> isExpired y (Some a) now)"
            by (simp only: idm mem)
        qed simp
        have lc': "lruContents ?s' = filter (\<lambda>e. \<not> isExpired e (Some a) now) l"
          using Some fl by (simp add: lruContents_def)
        have ce': "cacheEntries ?s' = filter (\<lambda>x. \<not> isExpired (snd x) (Some a) now) m"
          by (simp add: cacheEntries_update filter_mem_imp)
        have "distinct (map ident (filter (\<lambda>e. \<not> isExpired e (Some a) now) l))"
          using l(1) by (rule distinct_map_filter)
        moreover have "set (filter (\<lambda>e. \<not> isExpired e (Some a) now) l)
                  = snd ` set (filter (\<lambda>x. \<not> isExpired (snd x) (Some a) now) m)"
          using l(2) c by auto
        ultimately have "lruMirrors ?s'"
          using Some fl unfolding lruMirrors_def ce' by simp
        then show ?thesis using lc' lc a unfolding p by simp
      qed
    qed
  qed
qed

text \<open>The loop of prune does what \<^verbatim>\<open>remove\<close> does for each expired key, in the order of the map.\<close>

lemma pruneLoop_removes:
  assumes "entriesKeyed s" and "sizeCovers s"
    and "set rest \<subseteq> set (cacheEntries s)" and "distinct (map fst rest)"
  shows "snd (pruneLoop rest a now s) =
     fold (\<lambda>k t. snd (remove k t))
       (map fst (filter (\<lambda>x. isExpired (snd x) (Some a) now) rest)) s"
  using assms
proof (induction rest arbitrary: s)
  case Nil
  then show ?case by simp
next
  case (Cons x rest)
  obtain k e where x: "x = (k, e)" by (cases x)
  have mem: "(k, e) \<in> set (cacheEntries s)" using Cons.prems(3) x by simp
  have d: "distinct (map fst (cacheEntries s))"
    using Cons.prems(1) by (simp add: entriesKeyed_def)
  have st: "map_of (cacheEntries s) k = Some e" using d mem by (rule map_of_is_SomeI)
  have rm: "remove k s = removeEntry e s" using st by (rule remove_stored)
  show ?case
  proof (cases "isExpired e (Some a) now")
    case False
    then show ?thesis using Cons x by simp
  next
    case True
    have len: "int (length (cacheEntries s)) \<le> size_pc s"
      using Cons.prems(2) by (simp add: sizeCovers_def)
    show ?thesis
    proof (cases "size_pc s = 1")
      case one: True
      then have "length (cacheEntries s) \<le> 1" using len by simp
      with mem have m: "cacheEntries s = [(k, e)]" by (cases "cacheEntries s") auto
      have "rest = []"
      proof (cases rest)
        case Nil
        then show ?thesis .
      next
        case (Cons y ys)
        with Cons.prems(3) m have "y = (k, e)" by simp
        with Cons.prems(4) x Cons show ?thesis by simp
      qed
      then show ?thesis
        using True one x rm by (simp add: removeEntry_present[OF mem])
    next
      case more: False
      let ?s1 = "s\<lparr> size_pc := size_pc s - 1,
                    lruList := map_option (unlink e) (lruList s),
                    cache := Some (AList.delete (entryKey e) (cacheEntries s)) \<rparr>"
      have r: "removeEntry e s = (Inr (), ?s1)"
        using more by (simp add: removeEntry_present[OF mem])
      have inv1: "entriesKeyed ?s1" "sizeCovers ?s1"
        using covers_removeEntry[OF Cons.prems(1,2) mem] r by simp_all
      have ek: "entryKey e = k"
        using Cons.prems(1) mem by (auto simp add: entriesKeyed_def list_all_iff)
      have del: "AList.delete k (cacheEntries s) = filter (\<lambda>x. x \<noteq> (k, e)) (cacheEntries s)"
        using d mem by (rule alist_delete_as_filter)
      have c1: "cacheEntries ?s1 = filter (\<lambda>x. x \<noteq> (k, e)) (cacheEntries s)"
        by (simp add: cacheEntries_update ek del)
      have "(k, e) \<notin> set rest"
        using Cons.prems(4) x by (auto simp add: image_iff)
      then have sub1: "set rest \<subseteq> set (cacheEntries ?s1)"
        using Cons.prems(3) unfolding c1 by auto
      have d1: "distinct (map fst rest)" using Cons.prems(4) by simp
      have IH: "snd (pruneLoop rest a now ?s1) =
         fold (\<lambda>k t. snd (remove k t))
           (map fst (filter (\<lambda>x. isExpired (snd x) (Some a) now) rest)) ?s1"
        using inv1 sub1 d1 by (rule Cons.IH)
      have step: "pruneLoop (x # rest) a now s = pruneLoop rest a now ?s1"
        using True x r by simp
      have "snd (remove k s) = ?s1" using rm r by simp
      then show ?thesis
        unfolding step IH using True x by simp
    qed
  qed
qed

lemma prune_removes:
  assumes "entriesKeyed s" and "sizeCovers s"
  shows "snd (prune now s) =
     fold (\<lambda>k t. snd (remove k t))
       (map fst (filter (\<lambda>x. isExpired (snd x) (maxAge s) now) (cacheEntries s))) s"
proof (cases "cache s = None \<or> maxAge s = None")
  case True
  then show ?thesis
    by (auto simp add: prune_noop isExpired_None cacheEntries_def)
next
  case False
  then obtain m a where m: "cache s = Some m" and a: "maxAge s = Some a" by auto
  have c: "cacheEntries s = m" using m by (simp add: cacheEntries_def)
  have "distinct (map fst m)" using assms(1) c by (simp add: entriesKeyed_def)
  then have "snd (pruneLoop m a now s) =
     fold (\<lambda>k t. snd (remove k t)) (map fst (filter (\<lambda>x. isExpired (snd x) (Some a) now) m)) s"
    using assms c by (intro pruneLoop_removes) simp_all
  then show ?thesis using m a c by (simp add: prune_def)
qed

text \<open>
  Claim C9, as amended. Take a cache whose entries sit under their own unique keys and
  whose counter is at least the number of keys (see \<open>reachable_from_new\<close> below for the
  states that are such). \<^verbatim>\<open>prune()\<close> does not throw; it is a no-op when the map is
  absent or \<^verbatim>\<open>maxAge\<close> is null; otherwise it removes exactly the entries for which
  \<open>isExpired\<close> is true, and the unexpired entries stay as they are. It takes the removal
  path of \<^verbatim>\<open>remove\<close>: the state it leaves is the state that \<^verbatim>\<open>remove(key)\<close>, called for
  each expired key in the order of the map, leaves. When the counter is exact (equal to
  the number of keys) it is exact afterwards; a prune that then removes the last entry
  leaves the cache as \<^verbatim>\<open>clear()\<close> does, with the pruning interval cancelled and its handle
  cleared, and a prune after which entries remain does not touch the interval. When
  moreover the LRU list links exactly the entries of the map, it does so afterwards, and
  keeps the unexpired nodes in their order.
\<close>

theorem C9_prune_contract:
  assumes "entriesKeyed s" and "sizeCovers s"
  shows "fst (prune now s) = Inr () \<and>
    (cache s = None \<or> maxAge s = None \<longrightarrow> snd (prune now s) = s) \<and>
    cacheEntries (snd (prune now s))
      = filter (\<lambda>x. \<not> isExpired (snd x) (maxAge s) now) (cacheEntries s) \<and>
    snd (prune now s)
      = fold (\<lambda>k t. snd (remove k t))
          (map fst (filter (\<lambda>x. isExpired (snd x) (maxAge s) now) (cacheEntries s))) s \<and>
    entriesKeyed (snd (prune now s)) \<and>
    sizeCovers (snd (prune now s)) \<and>
    (sizeMirrors s \<longrightarrow>
       sizeMirrors (snd (prune now s)) \<and>
       (cacheEntries s \<noteq> [] \<and> cacheEntries (snd (prune now s)) = [] \<longrightarrow>
          snd (prune now s) = clear s \<and>
          pruningIntervalId (snd (prune now s)) = None \<and>
          intervals (snd (prune now s))
            = (case pruningIntervalId s of None \<Rightarrow> intervals s | Some i \<Rightarrow> removeAll i (intervals s))) \<and>
       (cacheEntries (snd (prune now s)) \<noteq> [] \<longrightarrow>
          pruningIntervalId (snd (prune now s)) = pruningIntervalId s \<and>
          intervals (snd (prune now s)) = intervals s)) \<and>
    (sizeMirrors s \<and> lruMirrors s \<longrightarrow>
       lruMirrors (snd (prune now s)) \<and>
       lruContents (snd (prune now s))
         = filter (\<lambda>e. \<not> isExpired e (maxAge s) now) (lruContents s))"
proof -
  have cl: "pruningIntervalId (clear s) = None \<and>
        intervals (clear s)
         = (case pruningIntervalId s of None \<Rightarrow> intervals s | Some i \<Rightarrow> removeAll i (intervals s))"
    by (simp add: clear_def stopPruningInterval_def split: option.splits)
  have uncond: "fst (prune now s) = Inr () \<and>
    (cache s = None \<or> maxAge s = None \<longrightarrow> snd (prune now s) = s) \<and>
    cacheEntries (snd (prune now s))
      = filter (\<lambda>x. \<not> isExpired (snd x) (maxAge s) now) (cacheEntries s) \<and>
    snd (prune now s)
      = fold (\<lambda>k t. snd (remove k t))
          (map fst (filter (\<lambda>x. isExpired (snd x) (maxAge s) now) (cacheEntries s))) s \<and>
    entriesKeyed (snd (prune now s)) \<and>
    sizeCovers (snd (prune now s))"
    using prune_entries[OF assms, of now] prune_keyed[OF assms, of now] prune_covers[OF assms, of now]
      prune_removes[OF assms, of now]
    by (auto simp add: prune_noop)
  have exact: "sizeMirrors (snd (prune now s)) \<and>
       (cacheEntries s \<noteq> [] \<and> cacheEntries (snd (prune now s)) = [] \<longrightarrow>
          snd (prune now s) = clear s \<and>
          pruningIntervalId (snd (prune now s)) = None \<and>
          intervals (snd (prune now s))
            = (case pruningIntervalId s of None \<Rightarrow> intervals s | Some i \<Rightarrow> removeAll i (intervals s))) \<and>
       (cacheEntries (snd (prune now s)) \<noteq> [] \<longrightarrow>
          pruningIntervalId (snd (prune now s)) = pruningIntervalId s \<and>
          intervals (snd (prune now s)) = intervals s)"
    if "sizeMirrors s"
    using prune_timer[OF assms(1) that, of now] invariant_prune[OF assms(1) that, of now] cl
    by auto
  have lru: "lruMirrors (snd (prune now s)) \<and>
       lruContents (snd (prune now s))
         = filter (\<lambda>e. \<not> isExpired e (maxAge s) now) (lruContents s)"
    if "sizeMirrors s" and "lruMirrors s"
    using prune_lru[OF assms(1) that, of now] by simp
  show ?thesis using uncond exact lru by blast
qed

text \<open>
  Witness for C9: \<^verbatim>\<open>maxSize = 3\<close>, \<^verbatim>\<open>maxAge = 10\<close>, a pruning interval of a minute; \<^verbatim>\<open>'a'\<close>,
  \<^verbatim>\<open>'b'\<close> and \<^verbatim>\<open>'c'\<close> are inserted at times 0, 5 and 8. A prune at time 12 removes \<^verbatim>\<open>'a'\<close>
  alone and leaves the interval running; a prune at time 100 removes all three entries
  and cancels the interval.
\<close>

theorem C9_prune_contract_witness:
  "entriesKeyed (getAll [(''a'', 11, 0), (''b'', 12, 5), (''c'', 13, 8)]
      (newPromiseCache (Some 3) (Some 10) (Some 60000))) \<and>
   sizeMirrors (getAll [(''a'', 11, 0), (''b'', 12, 5), (''c'', 13, 8)]
      (newPromiseCache (Some 3) (Some 10) (Some 60000))) \<and>
   lruMirrors (getAll [(''a'', 11, 0), (''b'', 12, 5), (''c'', 13, 8)]
      (newPromiseCache (Some 3) (Some 10) (Some 60000))) \<and>
   pruningIntervalId (getAll [(''a'', 11, 0), (''b'', 12, 5), (''c'', 13, 8)]
      (newPromiseCache (Some 3) (Some 10) (Some 60000))) = Some 1 \<and>
   map fst (cacheEntries (snd (prune 12 (getAll [(''a'', 11, 0), (''b'', 12, 5), (''c'', 13, 8)]
      (newPromiseCache (Some 3) (Some 10) (Some 60000)))))) = [''b'', ''c''] \<and>
   map entryKey (lruContents (snd (prune 12 (getAll [(''a'', 11, 0), (''b'', 12, 5), (''c'', 13, 8)]
      (newPromiseCache (Some 3) (Some 10) (Some 60000)))))) = [''c'', ''b''] \<and>
   pruningIntervalId (snd (prune 12 (getAll [(''a'', 11, 0), (''b'', 12, 5), (''c'', 13, 8)]
      (newPromiseCache (Some 3) (Some 10) (Some 60000))))) = Some 1 \<and>
   cacheEntries (snd (prune 100 (getAll [(''a'', 11, 0), (''b'', 12, 5), (''c'', 13, 8)]
      (newPromiseCache (Some 3) (Some 10) (Some 60000))))) = [] \<and>
   pruningIntervalId (snd (prune 100 (getAll [(''a'', 11, 0), (''b'', 12, 5), (''c'', 13, 8)]
      (newPromiseCache (Some 3) (Some 10) (Some 60000))))) = None \<and>
   intervals (snd (prune 100 (getAll [(''a'', 11, 0), (''b'', 12, 5), (''c'', 13, 8)]
      (newPromiseCache (Some 3) (Some 10) (Some 60000))))) = []"
proof -
  define s where "s = getAll [(''a'', 11, 0), (''b'', 12, 5), (''c'', 13, 8)]
      (newPromiseCache (Some 3) (Some 10) (Some 60000))"
  have h1: "entriesKeyed s" unfolding s_def by code_simp
  have h2: "sizeMirrors s" unfolding s_def by code_simp
  have h3: "lruMirrors s" unfolding s_def by code_simp
  have h4: "pruningIntervalId s = Some 1" unfolding s_def by code_simp
  have h5: "intervals s = [1]" unfolding s_def by code_simp
  have h6: "maxAge s = Some 10" unfolding s_def by code_simp
  have h7: "cacheEntries s = [(''a'', newCacheEntry 0 ''a'' 11 0), (''b'', newCacheEntry 1 ''b'' 12 5),
      (''c'', newCacheEntry 2 ''c'' 13 8)]" unfolding s_def by code_simp
  have h8: "lruContents s = [newCacheEntry 2 ''c'' 13 8, newCacheEntry 1 ''b'' 12 5,
      newCacheEntry 0 ''a'' 11 0]" unfolding s_def by code_simp
  have h0: "sizeCovers s" using h2 by (rule sizeMirrors_covers)
  note t12 = C9_prune_contract[OF h1 h0, of 12]
  note t100 = C9_prune_contract[OF h1 h0, of 100]
  have "cacheEntries (snd (prune 12 s))
      = filter (\<lambda>x. \<not> isExpired (snd x) (maxAge s) 12) (cacheEntries s)"
    using t12 by blast
  then have e12: "map fst (cacheEntries (snd (prune 12 s))) = [''b'', ''c'']"
    by (simp add: h6 h7 isExpired_def newCacheEntry_def)
  have "lruContents (snd (prune 12 s)) = filter (\<lambda>e. \<not> isExpired e (maxAge s) 12) (lruContents s)"
    using t12 h2 h3 by blast
  then have l12: "map entryKey (lruContents (snd (prune 12 s))) = [''c'', ''b'']"
    by (simp add: h6 h8 isExpired_def newCacheEntry_def)
  have "cacheEntries (snd (prune 100 s))
      = filter (\<lambda>x. \<not> isExpired (snd x) (maxAge s) 100) (cacheEntries s)"
    using t100 by blast
  then have e100: "cacheEntries (snd (prune 100 s)) = []"
    by (simp add: h6 h7 isExpired_def newCacheEntry_def)
  have ne: "cacheEntries s \<noteq> []" by (simp add: h7)
  have ne12: "cacheEntries (snd (prune 12 s)) \<noteq> []" using e12 by auto
  have "pruningIntervalId (snd (prune 12 s)) = pruningIntervalId s"
    using t12 ne12 h2 by blast
  then have i12: "pruningIntervalId (snd (prune 12 s)) = Some 1" by (simp only: h4)
  have r: "(case pruningIntervalId s of None \<Rightarrow> intervals s | Some i \<Rightarrow> removeAll i (intervals s)) = []"
    by (simp add: h4 h5)
  have "pruningIntervalId (snd (prune 100 s)) = None"
    and "intervals (snd (prune 100 s))
         = (case pruningIntervalId s of None \<Rightarrow> intervals s | Some i \<Rightarrow> removeAll i (intervals s))"
    using t100 ne e100 h2 by blast+
  then have i100: "pruningIntervalId (snd (prune 100 s)) = None \<and> intervals (snd (prune 100 s)) = []"
    by (simp only: r)
  have "entriesKeyed s \<and> sizeMirrors s \<and> lruMirrors s \<and> pruningIntervalId s = Some 1 \<and>
    map fst (cacheEntries (snd (prune 12 s))) = [''b'', ''c''] \<and>
    map entryKey (lruContents (snd (prune 12 s))) = [''c'', ''b''] \<and>
    pruningIntervalId (snd (prune 12 s)) = Some 1 \<and>
    cacheEntries (snd (prune 100 s)) = [] \<and>
    pruningIntervalId (snd (prune 100 s)) = None \<and>
    intervals (snd (prune 100 s)) = []"
    using h1 h2 h3 h4 e12 l12 i12 e100 i100 by simp
  then show ?thesis unfolding s_def .
qed

text \<open>
  Claim C9 as stated fails where the counter is too high: the prune removes the last entry
  of the map, but the counter does not pass through 1, so the cache is not cleared and the
  pruning interval keeps running. First, \<^verbatim>\<open>maxAge = 10\<close> and an interval of a minute:
  \<^verbatim>\<open>'a'\<close> is inserted at time 0, the cache is destroyed, \<^verbatim>\<open>'b'\<close> is inserted at time 2
  (the counter is 2 for one key), and the prune runs at time 20. Second, \<^verbatim>\<open>'a'\<close> is
  inserted at time 0 and, expired, again at time 20 (the counter is 2 for one key), and
  the prune runs at time 40.
\<close>

theorem C9_timer_counterexample:
  "map fst (cacheEntries (run [(Get ''a'' (Setter (PromiseObj 1)), 0), (Destroy, 1),
        (Get ''b'' (Setter (PromiseObj 2)), 2)] (newPromiseCache None (Some 10) (Some 60000)))) = [''b''] \<and>
   cacheEntries (snd (prune 20 (run [(Get ''a'' (Setter (PromiseObj 1)), 0), (Destroy, 1),
        (Get ''b'' (Setter (PromiseObj 2)), 2)] (newPromiseCache None (Some 10) (Some 60000))))) = [] \<and>
   pruningIntervalId (snd (prune 20 (run [(Get ''a'' (Setter (PromiseObj 1)), 0), (Destroy, 1),
        (Get ''b'' (Setter (PromiseObj 2)), 2)] (newPromiseCache None (Some 10) (Some 60000))))) = Some 2 \<and>
   intervals (snd (prune 20 (run [(Get ''a'' (Setter (PromiseObj 1)), 0), (Destroy, 1),
        (Get ''b'' (Setter (PromiseObj 2)), 2)] (newPromiseCache None (Some 10) (Some 60000))))) = [2] \<and>
   map fst (cacheEntries (getAll [(''a'', 1, 0), (''a'', 2, 20)]
        (newPromiseCache None (Some 10) (Some 60000)))) = [''a''] \<and>
   cacheEntries (snd (prune 40 (getAll [(''a'', 1, 0), (''a'', 2, 20)]
        (newPromiseCache None (Some 10) (Some 60000))))) = [] \<and>
   pruningIntervalId (snd (prune 40 (getAll [(''a'', 1, 0), (''a'', 2, 20)]
        (newPromiseCache None (Some 10) (Some 60000))))) = Some 1 \<and>
   intervals (snd (prune 40 (getAll [(''a'', 1, 0), (''a'', 2, 20)]
        (newPromiseCache None (Some 10) (Some 60000))))) = [1]"
  by code_simp

subsection \<open>The order of the LRU list\<close>






























subsection \<open>The counter in the states the methods can reach\<close>

lemma covers_remove:
  assumes "entriesKeyed s" and "sizeCovers s" and ni: "lookup (cacheEntries s) k \<noteq> Inherited"
  shows "sizeCovers (snd (remove k s))"
proof (cases "map_of (cacheEntries s) k")
  case None
  then show ?thesis using assms by (simp add: remove_as_removeEntry[OF ni])
next
  case (Some e)
  then have "(k, e) \<in> set (cacheEntries s)" by (rule map_of_SomeD)
  with assms show ?thesis using Some by (simp add: remove_as_removeEntry[OF ni] covers_removeEntry)
qed

lemma covers_removeIfEntry:
  assumes "entriesKeyed s" and "sizeCovers s"
  shows "sizeCovers (snd (removeIfEntry k e s))"
proof -
  consider "removeIfEntry k e s = (Inr (), s)"
    | e' where "map_of (cacheEntries s) k = Some e'" and "removeIfEntry k e s = removeEntry e' s"
    using removeIfEntry_stored[of k e s] by blast
  then show ?thesis
  proof cases
    case 1
    then show ?thesis using assms by simp
  next
    case 2
    have "(k, e') \<in> set (cacheEntries s)" using 2(1) by (rule map_of_SomeD)
    then show ?thesis using covers_removeEntry[OF assms] 2(2) by simp
  qed
qed

lemma covers_runHandlers:
  assumes "entriesKeyed s" and "plainKeys s" and "sizeCovers s"
  shows "sizeCovers (runHandlers hs s)"
  using assms
proof (induction hs arbitrary: s)
  case Nil
  then show ?case by simp
next
  case (Cons h hs)
  obtain p k e where h: "h = (p, k, e)" by (cases h)
  show ?case
    using Cons.IH[of "snd (removeIfEntry k e s)"] keys_removeIfEntry[OF Cons.prems(1,2), of k e]
      covers_removeIfEntry[OF Cons.prems(1,3), of k e]
    by (simp add: h)
qed

lemma covers_reject:
  assumes "entriesKeyed s" and "plainKeys s" and "sizeCovers s"
  shows "sizeCovers (reject p s)"
proof -
  let ?s' = "s\<lparr> rejectHandlers := filter (\<lambda>h. fst h \<noteq> p) (rejectHandlers s) \<rparr>"
  have "entriesKeyed ?s'" "plainKeys ?s'" "sizeCovers ?s'"
    using assms
    by (simp_all add: entriesKeyed_def sizeCovers_def cacheEntries_update plainKeys_handlers)
  then show ?thesis unfolding reject_def by (rule covers_runHandlers)
qed

lemma covers_get:
  assumes keyed: "entriesKeyed s" and plain: "plainKeys s" and cov: "sizeCovers s"
  shows "sizeCovers (snd (get k st now s))"
proof (cases st)
  case NotCallable
  then show ?thesis using cov by (simp add: get_def)
next
  case (Setter v)
  show ?thesis
  proof (cases "misses k now s")
    case False
    show ?thesis
    proof (cases "lookup (cacheEntries s) k")
      case Absent
      then show ?thesis using False by (simp add: misses_def)
    next
      case Inherited
      then show ?thesis
        using cov Setter by (simp add: get_inherited sizeCovers_def lazyInit_obs lazyInit_fields)
    next
      case (Own e)
      then have e: "map_of (cacheEntries s) k = Some e"
        by (simp add: lookup_def split: option.splits if_splits)
      have ne: "\<not> isExpired e (maxAge s) now" using False Own by (simp add: misses_def)
      have "cacheEntries (touchEntry e (lazyInit s)) = cacheEntries s"
        by (simp add: cacheEntries_def[of "touchEntry e (lazyInit s)"] touchEntry_fields lazyInit_fields)
      moreover have "size_pc (touchEntry e (lazyInit s)) = size_pc s"
        by (simp add: touchEntry_fields lazyInit_fields)
      ultimately show ?thesis
        using cov Setter by (simp add: get_hit[OF e ne] sizeCovers_def)
    qed
  next
    case miss: True
    show ?thesis
    proof (cases v)
      case NonThenable
      have "get k st now s =
          (Inl InvalidSetterResultError, (lazyInit s)\<lparr> setterCalls := Suc (setterCalls (lazyInit s)) \<rparr>)"
        using miss Setter NonThenable by (simp add: get_miss addEntry_def)
      then show ?thesis
        using cov by (simp add: sizeCovers_def cacheEntries_update lazyInit_obs lazyInit_fields)
    next
      case (PromiseObj p)
      let ?I = "inserted k p now (lazyInit s)"
      have "sizeCovers ?I"
        using cov
        by (simp add: sizeCovers_def inserted_obs inserted_fields lazyInit_fields lazyInit_obs
            length_alist_update)
      moreover have "entriesKeyed ?I" using keyed by (rule entriesKeyed_inserted)
      ultimately have "sizeCovers (snd (evictLru ?I))"
        using covers_remove[of ?I, OF _ _ lru_key_after_insert[OF plain, of k p now]]
        by (simp add: evictLru_inserted split: option.splits)
      then show ?thesis
        using Setter PromiseObj
        by (simp add: get_miss_promise[OF miss plain] sizeCovers_def cacheEntries_update)
    qed
  qed
qed

lemma covers_destroy:
  assumes "sizeCovers s"
  shows "sizeCovers (destroy s)"
proof -
  have "0 \<le> size_pc s" using assms by (simp add: sizeCovers_def)
  then show ?thesis by (simp add: sizeCovers_def destroy_obs destroy_fields)
qed

lemma covers_exec:
  assumes "entriesKeyed s" and "plainKeys s" and "sizeCovers s" and "\<not> inheritedRemoval c"
  shows "sizeCovers (exec c now s)"
proof (cases c)
  case (Get k st)
  then show ?thesis using covers_get[OF assms(1,2,3), of k st now] by simp
next
  case (Has k)
  then show ?thesis using assms by simp
next
  case (Remove k)
  then have "k \<notin> set objectPrototype" using assms(4) by (simp add: inheritedRemoval_def)
  then have "lookup (cacheEntries s) k \<noteq> Inherited" by (simp add: lookup_inherited)
  then show ?thesis using covers_remove[OF assms(1,3), of k] Remove by simp
next
  case GetSize
  then show ?thesis using prune_covers[OF assms(1,3), of now] by (simp add: snd_getSize)
next
  case Clear
  then show ?thesis by (simp add: sizeCovers_clear)
next
  case Prune
  then show ?thesis using prune_covers[OF assms(1,3), of now] by simp
next
  case Destroy
  then show ?thesis using covers_destroy[OF assms(3)] by simp
next
  case (Reject p)
  then show ?thesis using covers_reject[OF assms(1,2,3), of p] by simp
qed

text \<open>
  Whatever the calls, their order and their times, as long as \<^verbatim>\<open>remove\<close> is not given the
  name of a member of \<^verbatim>\<open>Object.prototype\<close>: in every state reached from a new cache the
  entries sit under their own unique keys and the counter is at least the number of keys.
  These are the hypotheses of the theorem on \<open>prune\<close>.
\<close>

lemma reachable_bookkeeping:
  assumes "entriesKeyed s" and "plainKeys s" and "sizeCovers s" and "plainRemovals cs"
  shows "sizeCovers (run cs s)"
  using assms
proof (induction cs arbitrary: s)
  case Nil
  then show ?case by simp
next
  case (Cons x cs)
  obtain c now where x: "x = (c, now)" by (cases x)
  have a: "\<not> inheritedRemoval c" and rest: "plainRemovals cs" using Cons.prems(4) x by simp_all
  show ?case
    using Cons.IH[of "exec c now s"] covers_exec[OF Cons.prems(1,2,3) a, of now]
      keys_exec[OF Cons.prems(1,2), of c now] rest x
    by simp
qed

lemma reachable_from_new:
  assumes "plainRemovals cs"
  shows "entriesKeyed (run cs (newPromiseCache msize mage pint)) \<and>
         sizeCovers (run cs (newPromiseCache msize mage pint))"
proof -
  have "sizeCovers (newPromiseCache msize mage pint)"
    using invariant_new[of msize mage pint] by (simp add: sizeMirrors_covers)
  then have "sizeCovers (run cs (newPromiseCache msize mage pint))"
    using invariant_new[of msize mage pint] plainKeys_new[of msize mage pint] assms
    by (intro reachable_bookkeeping) simp_all
  then show ?thesis using reachable_keys[of cs msize mage pint] by simp
qed

text \<open>In such a state \<^verbatim>\<open>getSize\<close> and \<^verbatim>\<open>prune\<close> do not throw.\<close>

lemma reachable_getSize:
  assumes "plainRemovals cs"
  shows "fst (getSize now (run cs (newPromiseCache msize mage pint)))
     = Inr (size_pc (snd (prune now (run cs (newPromiseCache msize mage pint)))))"
proof -
  let ?s = "run cs (newPromiseCache msize mage pint)"
  have "fst (prune now ?s) = Inr ()"
    using prune_entries[of ?s now] reachable_from_new[OF assms, of msize mage pint] by simp
  then show ?thesis
    by (cases "prune now ?s") (simp add: getSize_def)
qed

text \<open>
  The restriction on \<^verbatim>\<open>remove\<close> is needed: \<^verbatim>\<open>remove('toString')\<close> on a cache with two
  entries throws after it has lowered the counter to 1, and the next \<^verbatim>\<open>prune\<close>, with both
  entries expired, clears the cache at the first entry and throws at the second.
\<close>

lemma inherited_removal_breaks_prune:
  "fst (remove ''toString'' (getAll [(''a'', 1, 0), (''b'', 2, 1)] (newPromiseCache None (Some 10) None)))
     = Inl TypeError \<and>
   size_pc (snd (remove ''toString'' (getAll [(''a'', 1, 0), (''b'', 2, 1)] (newPromiseCache None (Some 10) None))))
     = 1 \<and>
   fst (prune 100 (snd (remove ''toString''
      (getAll [(''a'', 1, 0), (''b'', 2, 1)] (newPromiseCache None (Some 10) None))))) = Inl TypeError \<and>
   fst (get ''toString'' (Setter (PromiseObj 3)) 2
      (getAll [(''a'', 1, 0), (''b'', 2, 1)] (newPromiseCache None (Some 10) None))) = Inl TypeError \<and>
   setterCalls (snd (get ''toString'' (Setter (PromiseObj 3)) 2
      (getAll [(''a'', 1, 0), (''b'', 2, 1)] (newPromiseCache None (Some 10) None)))) = 2 \<and>
   has ''toString'' 2 (getAll [(''a'', 1, 0), (''b'', 2, 1)] (newPromiseCache None (Some 10) None))
     = Inl TypeError \<and>
   has ''toString'' 2 (newPromiseCache None (Some 10) None) = Inr False"
  by code_simp

end
